theory Spec2Isabelle
  imports Main "HOL-Library.Multiset"
begin

text \<open>
  A model of \<^verbatim>\<open>categorize.py\<close>: the positional tree \<^verbatim>\<open>LinkedTree\<close> with the methods it
  inherits from \<^verbatim>\<open>Tree\<close>, and \<^verbatim>\<open>ProductCategorizer\<close>, which fills a tree from the lines of a
  file and prints it in pre-order and post-order. Objects live in a store and are named by
  addresses; an exception is a value of the type \<open>error\<close>; a method that assigns a field
  returns the tree it leaves. The limits of the interpreter (memory, recursion depth) are not
  part of the model.
\<close>

section \<open>Python values, errors and the node store\<close>

text \<open>
  The exceptions that \<^verbatim>\<open>categorize.py\<close> raises, with their messages. The three raised by
  \<^verbatim>\<open>_validate\<close> are what the specification calls InvalidPosition; the one raised by
  \<^verbatim>\<open>_add_root\<close> is what it calls AlreadyHasRoot.
\<close>

datatype error = TypeError string | ValueError string

type_synonym addr = nat

text \<open>
  The Python values that reach a parameter \<^verbatim>\<open>p\<close>: \<^verbatim>\<open>None\<close>, a bool (\<^verbatim>\<open>find_child_by_value\<close>
  returns \<^verbatim>\<open>False\<close>), a string, or a \<^verbatim>\<open>LinkedTree.Position\<close> with its two fields:
  the identity of the tree object that made it and a reference to a node object.
\<close>

datatype pyval = PNone | PBool bool | PStr string | Position (container: addr) (node: addr)

text \<open>\<^verbatim>\<open>LinkedTree._Node\<close>, slots \<^verbatim>\<open>_element\<close>, \<^verbatim>\<open>_parent\<close>, \<^verbatim>\<open>_children\<close>; a reference to a
  node is its address, \<^verbatim>\<open>None\<close> is \<open>None\<close>.\<close>

record Node =
  nd_element :: string
  nd_parent :: "addr option"
  nd_children :: "addr list option"

text \<open>
  A \<^verbatim>\<open>LinkedTree\<close> object: its identity (what \<^verbatim>\<open>is self\<close> compares), the fields \<^verbatim>\<open>_root\<close> and
  \<^verbatim>\<open>_size\<close>, and the node objects it has allocated. The address of a node is its index in
  \<open>tr_nodes\<close>; \<^verbatim>\<open>_Node(...)\<close> allocates at the end.
\<close>

record LinkedTree =
  tr_ident :: addr
  tr_root :: "addr option"
  tr_size :: nat
  tr_nodes :: "Node list"

definition LinkedTree_init :: "addr \<Rightarrow> LinkedTree" where
  "LinkedTree_init i = \<lparr>tr_ident = i, tr_root = None, tr_size = 0, tr_nodes = []\<rparr>"

text \<open>\<^verbatim>\<open>Position.__eq__\<close>: same type and same node (the container is not compared); for the
  other values Python's own equality.\<close>

fun py_eq :: "pyval \<Rightarrow> pyval \<Rightarrow> bool" where
  "py_eq (Position c n) (Position c' n') = (n' = n)"
| "py_eq PNone PNone = True"
| "py_eq (PBool a) (PBool b) = (a = b)"
| "py_eq (PStr a) (PStr b) = (a = b)"
| "py_eq _ _ = False"

text \<open>Truth value of a Python value in a condition.\<close>

fun truthy :: "pyval \<Rightarrow> bool" where
  "truthy PNone = False"
| "truthy (PBool b) = b"
| "truthy (PStr s) = (s \<noteq> [])"
| "truthy (Position c n) = True"

section \<open>LinkedTree\<close>

text \<open>
  \<^verbatim>\<open>_validate\<close>. A Position object holds a node, never \<^verbatim>\<open>None\<close>: \<^verbatim>\<open>_make_position\<close> is the only
  place that creates one, and it does so for a node at hand.
\<close>

fun validate :: "LinkedTree \<Rightarrow> pyval \<Rightarrow> error + addr" where
  "validate t (Position c n) =
     (if c \<noteq> tr_ident t then Inl (ValueError ''p does not belong to this container'')
      else if nd_parent (tr_nodes t ! n) = Some n then Inl (ValueError ''p is no longer valid'')
      else Inr n)"
| "validate t _ = Inl (TypeError ''p must be proper Position type'')"

definition make_position :: "LinkedTree \<Rightarrow> addr option \<Rightarrow> pyval" where
  "make_position t nd = (case nd of Some n \<Rightarrow> Position (tr_ident t) n | None \<Rightarrow> PNone)"

definition len :: "LinkedTree \<Rightarrow> nat" where
  "len t = tr_size t"

definition root :: "LinkedTree \<Rightarrow> pyval" where
  "root t = make_position t (tr_root t)"

definition parent :: "LinkedTree \<Rightarrow> pyval \<Rightarrow> error + pyval" where
  "parent t p =
     (case validate t p of Inl e \<Rightarrow> Inl e
      | Inr n \<Rightarrow> Inr (make_position t (nd_parent (tr_nodes t ! n))))"

definition num_children :: "LinkedTree \<Rightarrow> pyval \<Rightarrow> error + nat" where
  "num_children t p =
     (case validate t p of Inl e \<Rightarrow> Inl e
      | Inr n \<Rightarrow> (case nd_children (tr_nodes t ! n) of None \<Rightarrow> Inr 0
                  | Some cs \<Rightarrow> Inr (length cs)))"

text \<open>\<^verbatim>\<open>children\<close> is a generator: the model is what iterating it gives, the error of
  \<^verbatim>\<open>_validate\<close> or the positions in order.\<close>

definition children :: "LinkedTree \<Rightarrow> pyval \<Rightarrow> error + pyval list" where
  "children t p =
     (case validate t p of Inl e \<Rightarrow> Inl e
      | Inr n \<Rightarrow> (case nd_children (tr_nodes t ! n) of None \<Rightarrow> Inr []
                  | Some cs \<Rightarrow> Inr (map (\<lambda>c. make_position t (Some c)) cs)))"

subsection \<open>The methods inherited from Tree\<close>

definition is_root :: "LinkedTree \<Rightarrow> pyval \<Rightarrow> bool" where
  "is_root t p = py_eq (root t) p"

definition is_leaf :: "LinkedTree \<Rightarrow> pyval \<Rightarrow> error + bool" where
  "is_leaf t p = (case num_children t p of Inl e \<Rightarrow> Inl e | Inr k \<Rightarrow> Inr (k = 0))"

definition is_empty :: "LinkedTree \<Rightarrow> bool" where
  "is_empty t = (len t = 0)"

text \<open>\<^verbatim>\<open>depth\<close> recurses along the parent links; \<open>None\<close> is a call that does not return.\<close>

partial_function (option) depth :: "LinkedTree \<Rightarrow> pyval \<Rightarrow> (error + nat) option" where
  "depth t p =
     (if is_root t p then Some (Inr 0)
      else (case parent t p of Inl e \<Rightarrow> Some (Inl e)
            | Inr q \<Rightarrow> Option.bind (depth t q)
                (\<lambda>r. case r of Inl e \<Rightarrow> Some (Inl e) | Inr d \<Rightarrow> Some (Inr (1 + d)))))"

declare depth.simps [code]

subsection \<open>Mutation\<close>

text \<open>
  The mutating methods return the tree as the call leaves it together with what the call
  returned or raised, so that a call that raises still shows what it had already changed.
\<close>

definition add_root :: "LinkedTree \<Rightarrow> string \<Rightarrow> (error + pyval) \<times> LinkedTree" where
  "add_root t e =
     (if tr_root t \<noteq> None then (Inl (ValueError ''Root exists''), t)
      else (let a = length (tr_nodes t);
                t' = t\<lparr>tr_size := 1,
                       tr_nodes := tr_nodes t @ [\<lparr>nd_element = e, nd_parent = None, nd_children = None\<rparr>],
                       tr_root := Some a\<rparr>
            in (Inr (make_position t' (tr_root t')), t')))"

fun find_loop :: "LinkedTree \<Rightarrow> pyval list \<Rightarrow> string \<Rightarrow> error + pyval" where
  "find_loop t [] v = Inr (PBool False)"
| "find_loop t (child # cs) v =
     (case validate t child of Inl e \<Rightarrow> Inl e
      | Inr n \<Rightarrow> if nd_element (tr_nodes t ! n) = v then Inr child else find_loop t cs v)"

definition find_child_by_value :: "LinkedTree \<Rightarrow> pyval \<Rightarrow> string \<Rightarrow> error + pyval" where
  "find_child_by_value t p v =
     (case children t p of Inl e \<Rightarrow> Inl e | Inr cs \<Rightarrow> find_loop t cs v)"

text \<open>
  \<^verbatim>\<open>_add_nonroot_node\<close>. The test \<^verbatim>\<open>node is None\<close> after \<^verbatim>\<open>_validate\<close> cannot succeed
  (\<^verbatim>\<open>_validate\<close> has dereferenced the node) and has no branch here. \<open>t1\<close> is the tree after
  \<^verbatim>\<open>node._children = []\<close>, which runs when the list is absent. When the child exists the
  method ends in a bare \<^verbatim>\<open>return\<close>: it returns \<^verbatim>\<open>None\<close>.
\<close>

definition add_nonroot_node :: "LinkedTree \<Rightarrow> pyval \<Rightarrow> string \<Rightarrow> (error + pyval) \<times> LinkedTree" where
  "add_nonroot_node t p e =
     (case validate t p of Inl err \<Rightarrow> (Inl err, t)
      | Inr n \<Rightarrow>
          (let cs = (case nd_children (tr_nodes t ! n) of None \<Rightarrow> [] | Some l \<Rightarrow> l);
               t1 = t\<lparr>tr_nodes := (tr_nodes t)[n := (tr_nodes t ! n)\<lparr>nd_children := Some cs\<rparr>]\<rparr>
           in (case find_child_by_value t1 p e of Inl err \<Rightarrow> (Inl err, t1)
               | Inr found \<Rightarrow>
                   if truthy found then (Inr PNone, t1)
                   else (let t2 = t1\<lparr>tr_size := len t1 + 1\<rparr>;
                             newNode = length (tr_nodes t2);
                             t3 = t2\<lparr>tr_nodes := tr_nodes t2 @
                                    [\<lparr>nd_element = e, nd_parent = Some n, nd_children = None\<rparr>]\<rparr>;
                             t4 = t3\<lparr>tr_nodes := (tr_nodes t3)
                                    [n := (tr_nodes t3 ! n)\<lparr>nd_children := Some (cs @ [newNode])\<rparr>]\<rparr>
                         in (Inr (make_position t4 (Some newNode)), t4)))))"

text \<open>\<^verbatim>\<open>add_node\<close> has no \<^verbatim>\<open>return\<close>: it returns \<^verbatim>\<open>None\<close> whatever the method it calls returned.\<close>

definition add_node :: "LinkedTree \<Rightarrow> string \<Rightarrow> pyval \<Rightarrow> (error + pyval) \<times> LinkedTree" where
  "add_node t e p =
     (case (if p = PNone then add_root t e else add_nonroot_node t p e) of
        (Inl err, t') \<Rightarrow> (Inl err, t')
      | (Inr r, t') \<Rightarrow> (Inr PNone, t'))"

subsection \<open>Traversals\<close>

text \<open>
  A generator of lines is modelled by what it produces: the lines it yields, in order, and
  the exception that ends it, if one does. The outer \<open>option\<close> is \<open>None\<close> when the
  generator never ends.
\<close>

type_synonym lines = "string list \<times> error option"

definition TAB :: char where "TAB = CHR 0x09"
definition NL :: char where "NL = CHR 0x0A"

text \<open>\<^verbatim>\<open>for child in cs: yield from f(child)\<close>\<close>

primrec yield_from_each :: "('a \<Rightarrow> lines option) \<Rightarrow> 'a list \<Rightarrow> lines option" where
  "yield_from_each f [] = Some ([], None)"
| "yield_from_each f (child # cs) =
     Option.bind (f child) (\<lambda>r. case snd r of Some e \<Rightarrow> Some r
       | None \<Rightarrow> Option.bind (yield_from_each f cs) (\<lambda>r'. Some (fst r @ fst r', snd r')))"

lemma yield_from_each_mono [partial_function_mono]:
  assumes "\<And>y. mono_option (\<lambda>f. C y f)"
  shows "mono_option (\<lambda>f. yield_from_each (\<lambda>y. C y f) xs)"
proof (induction xs)
  case Nil
  show ?case by (simp add: option.const_mono)
next
  case (Cons x xs)
  have step: "mono_option (\<lambda>f. case snd r of Some e \<Rightarrow> Some r
      | None \<Rightarrow> Option.bind (yield_from_each (\<lambda>y. C y f) xs) (\<lambda>r'. Some (fst r @ fst r', snd r')))"
    for r :: lines
    by (cases "snd r") (auto intro!: partial_function_mono Cons.IH)
  show ?case
    unfolding yield_from_each.simps
    by (rule bind_mono [OF assms step])
qed

text \<open>The line of a node: \<^verbatim>\<open>self.depth(p)*'\t' + self._validate(p)._element + '\n'\<close>, the depth
  being evaluated first.\<close>

definition node_line :: "LinkedTree \<Rightarrow> pyval \<Rightarrow> (error + string) option" where
  "node_line t p =
     Option.bind (depth t p) (\<lambda>r. case r of Inl e \<Rightarrow> Some (Inl e)
       | Inr d \<Rightarrow> (case validate t p of Inl e \<Rightarrow> Some (Inl e)
                   | Inr n \<Rightarrow> Some (Inr (replicate d TAB @ nd_element (tr_nodes t ! n) @ [NL]))))"

partial_function (option) traverse_preorder :: "LinkedTree \<Rightarrow> pyval \<Rightarrow> lines option" where
  "traverse_preorder t p =
     Option.bind (node_line t p) (\<lambda>r. case r of Inl e \<Rightarrow> Some ([], Some e)
       | Inr l \<Rightarrow> (case children t p of Inl e \<Rightarrow> Some ([l], Some e)
                   | Inr cs \<Rightarrow> Option.bind (yield_from_each (\<lambda>child. traverse_preorder t child) cs)
                       (\<lambda>r'. Some (l # fst r', snd r'))))"

declare traverse_preorder.simps [code]

partial_function (option) traverse_postorder :: "LinkedTree \<Rightarrow> pyval \<Rightarrow> lines option" where
  "traverse_postorder t p =
     (case children t p of Inl e \<Rightarrow> Some ([], Some e)
      | Inr cs \<Rightarrow> Option.bind (yield_from_each (\<lambda>child. traverse_postorder t child) cs)
          (\<lambda>r'. case snd r' of Some e \<Rightarrow> Some r'
             | None \<Rightarrow> Option.bind (node_line t p) (\<lambda>r. case r of Inl e \<Rightarrow> Some (fst r', Some e)
                 | Inr l \<Rightarrow> Some (fst r' @ [l], None))))"

declare traverse_postorder.simps [code]

definition all_nodes :: "LinkedTree \<Rightarrow> string \<Rightarrow> lines option" where
  "all_nodes t mode =
     (if mode = ''pre'' then traverse_preorder t (root t) else traverse_postorder t (root t))"

subsection \<open>Path to the root, child lookup\<close>

text \<open>The \<^verbatim>\<open>while\<close> loop of \<^verbatim>\<open>get_path_to_root\<close>; \<open>None\<close> is a loop that never ends.\<close>

partial_function (option) path_loop :: "LinkedTree \<Rightarrow> pyval \<Rightarrow> pyval list \<Rightarrow> (error + pyval list) option" where
  "path_loop t p orderedList =
     (if is_root t p = False
      then (case parent t p of Inl e \<Rightarrow> Some (Inl e)
            | Inr q \<Rightarrow> path_loop t q (orderedList @ [q]))
      else Some (Inr orderedList))"

declare path_loop.simps [code]

definition get_path_to_root :: "LinkedTree \<Rightarrow> pyval \<Rightarrow> (error + pyval list) option" where
  "get_path_to_root t p = path_loop t p [p]"

section \<open>Strings\<close>

text \<open>
  \<^verbatim>\<open>str.strip()\<close> and \<^verbatim>\<open>str.split(',')\<close>. A character is a code point below 256; the
  whitespace of \<^verbatim>\<open>str.isspace\<close> in that range is 9 to 13, 28 to 32, 133 and 160.
\<close>

definition isspace :: "char \<Rightarrow> bool" where
  "isspace c = (let k = (of_char c :: nat)
                in (9 \<le> k \<and> k \<le> 13) \<or> (28 \<le> k \<and> k \<le> 32) \<or> k = 133 \<or> k = 160)"

definition strip :: "string \<Rightarrow> string" where
  "strip s = rev (dropWhile isspace (rev (dropWhile isspace s)))"

fun split :: "string \<Rightarrow> string list" where
  "split [] = [[]]"
| "split (c # s) =
     (if c = CHR '','' then [] # split s
      else (case split s of w # ws \<Rightarrow> (c # w) # ws | [] \<Rightarrow> [[c]]))"

section \<open>ProductCategorizer\<close>

text \<open>
  \<^verbatim>\<open>fill_tree\<close>, from the lines that \<^verbatim>\<open>readlines()\<close> gives. \<open>cursor\<close> is the local variable
  \<^verbatim>\<open>parent\<close>. \<open>fill_label\<close> is the body of the inner loop and returns the new value of
  that variable, \<open>fill_line\<close> the body of the outer loop.
\<close>

definition fill_label :: "LinkedTree \<Rightarrow> pyval \<Rightarrow> string \<Rightarrow> (error + pyval) \<times> LinkedTree" where
  "fill_label t cursor nd =
     (case validate t (root t) of Inl e \<Rightarrow> (Inl e, t)
      | Inr r \<Rightarrow>
          if nd_element (tr_nodes t ! r) = strip nd then (Inr (root t), t)
          else (case find_child_by_value t cursor (strip nd) of Inl e \<Rightarrow> (Inl e, t)
                | Inr found \<Rightarrow>
                    if found = PBool False
                    then (case add_node t (strip nd) cursor of
                            (Inl e, t') \<Rightarrow> (Inl e, t')
                          | (Inr r, t') \<Rightarrow> (Inr cursor, t'))
                    else (case find_child_by_value t (root t) (strip nd) of
                            Inl e \<Rightarrow> (Inl e, t)
                          | Inr c \<Rightarrow> (Inr c, t))))"

fun fill_labels :: "LinkedTree \<Rightarrow> pyval \<Rightarrow> string list \<Rightarrow> (error + pyval) \<times> LinkedTree" where
  "fill_labels t cursor [] = (Inr cursor, t)"
| "fill_labels t cursor (nd # nodes) =
     (case fill_label t cursor nd of
        (Inl e, t') \<Rightarrow> (Inl e, t')
      | (Inr cursor', t') \<Rightarrow> fill_labels t' cursor' nodes)"

definition fill_line :: "LinkedTree \<Rightarrow> pyval \<Rightarrow> string \<Rightarrow> (error + pyval) \<times> LinkedTree" where
  "fill_line t cursor line =
     (if is_empty t
      then (case add_node t (strip line) PNone of
              (Inl e, t') \<Rightarrow> (Inl e, t')
            | (Inr r, t') \<Rightarrow> (Inr cursor, t'))
      else fill_labels t cursor (split line))"

fun fill_lines :: "LinkedTree \<Rightarrow> pyval \<Rightarrow> string list \<Rightarrow> (error + pyval) \<times> LinkedTree" where
  "fill_lines t cursor [] = (Inr cursor, t)"
| "fill_lines t cursor (line # rest) =
     (case fill_line t cursor line of
        (Inl e, t') \<Rightarrow> (Inl e, t')
      | (Inr cursor', t') \<Rightarrow> fill_lines t' cursor' rest)"

text \<open>\<open>i\<close> is the identity of the tree object that \<^verbatim>\<open>LinkedTree()\<close> creates.\<close>

definition fill_tree :: "addr \<Rightarrow> string list \<Rightarrow> (error + pyval) \<times> LinkedTree" where
  "fill_tree i lines = fill_lines (LinkedTree_init i) PNone lines"

text \<open>
  \<^verbatim>\<open>print_tree\<close>: what each of the two files holds when the method ends (\<open>None\<close> for a file
  the method has not opened) and the exception that ended it, if one did.
\<close>

record files =
  pre_txt :: "string list option"
  post_txt :: "string list option"
  raised :: "error option"

definition print_tree :: "LinkedTree \<Rightarrow> files option" where
  "print_tree t =
     Option.bind (all_nodes t ''pre'') (\<lambda>r. case snd r of
         Some e \<Rightarrow> Some \<lparr>pre_txt = Some (fst r), post_txt = None, raised = Some e\<rparr>
       | None \<Rightarrow> Option.bind (all_nodes t ''post'')
           (\<lambda>r'. Some \<lparr>pre_txt = Some (fst r), post_txt = Some (fst r'), raised = snd r'\<rparr>))"

section \<open>Vocabulary of the specification\<close>

text \<open>
  The specification's error taxonomy, in terms of what the code raises: InvalidPosition is
  any of the three exceptions of \<^verbatim>\<open>_validate\<close>, AlreadyHasRoot is the one of \<^verbatim>\<open>_add_root\<close>.
\<close>

definition InvalidPosition :: "error \<Rightarrow> bool" where
  "InvalidPosition e =
     (e = TypeError ''p must be proper Position type'' \<or>
      e = ValueError ''p does not belong to this container'' \<or>
      e = ValueError ''p is no longer valid'')"

definition AlreadyHasRoot :: "error \<Rightarrow> bool" where
  "AlreadyHasRoot e = (e = ValueError ''Root exists'')"

text \<open>The three ways in which an argument is not a valid position of the tree \<open>t\<close>.\<close>

fun proper_type :: "pyval \<Rightarrow> bool" where
  "proper_type (Position c n) = True"
| "proper_type _ = False"

fun foreign :: "LinkedTree \<Rightarrow> pyval \<Rightarrow> bool" where
  "foreign t (Position c n) = (c \<noteq> tr_ident t)"
| "foreign t _ = False"

fun tombstoned :: "LinkedTree \<Rightarrow> pyval \<Rightarrow> bool" where
  "tombstoned t (Position c n) = (nd_parent (tr_nodes t ! n) = Some n)"
| "tombstoned t _ = False"

section \<open>Well-formed trees\<close>

text \<open>The children of a node as a list, an absent list being empty.\<close>

definition kids :: "LinkedTree \<Rightarrow> addr \<Rightarrow> addr list" where
  "kids t n = (case nd_children (tr_nodes t ! n) of None \<Rightarrow> [] | Some cs \<Rightarrow> cs)"

text \<open>
  Python holds references to live objects only: a Position that carries the identity of
  the tree \<open>t\<close> refers to a node that \<open>t\<close> has allocated. Every other value is allowed.
\<close>

fun pos_ok :: "LinkedTree \<Rightarrow> pyval \<Rightarrow> bool" where
  "pos_ok t (Position c n) = (c = tr_ident t \<longrightarrow> n < length (tr_nodes t))"
| "pos_ok t _ = True"

text \<open>
  The shape that the mutating methods maintain. The nodes are counted by \<^verbatim>\<open>_size\<close>; the root
  is the first node allocated; every other node has a parent allocated before it and is
  listed among the children of that parent; the children of a node are distinct and point
  back to it.
\<close>

definition node_ok :: "LinkedTree \<Rightarrow> addr \<Rightarrow> bool" where
  "node_ok t a =
     ((case nd_parent (tr_nodes t ! a) of None \<Rightarrow> a = 0
       | Some b \<Rightarrow> b < a \<and> a \<in> set (kids t b)) \<and>
      distinct (kids t a) \<and>
      (\<forall>c \<in> set (kids t a). c < length (tr_nodes t) \<and> nd_parent (tr_nodes t ! c) = Some a))"

definition invar :: "LinkedTree \<Rightarrow> bool" where
  "invar t =
     (tr_size t = length (tr_nodes t) \<and>
      tr_root t = (if tr_nodes t = [] then None else Some 0) \<and>
      (\<forall>a \<in> {0..<length (tr_nodes t)}. node_ok t a))"

text \<open>The trees that a program can build: a fresh tree, and any tree obtained from one by
  a call of a mutating method, whether the call returns or raises.\<close>

inductive built :: "LinkedTree \<Rightarrow> bool" where
  fresh: "built (LinkedTree_init i)"
| by_add_root: "built t \<Longrightarrow> built (snd (add_root t e))"
| by_add_nonroot_node: "built t \<Longrightarrow> pos_ok t p \<Longrightarrow> built (snd (add_nonroot_node t p e))"
| by_add_node: "built t \<Longrightarrow> pos_ok t p \<Longrightarrow> built (snd (add_node t e p))"

text \<open>
  The two states in which \<^verbatim>\<open>_add_nonroot_node\<close> leaves a well-formed tree: with the list of
  children of node \<open>n\<close> present, and with a new node appended to it.
\<close>

definition with_list :: "LinkedTree \<Rightarrow> addr \<Rightarrow> LinkedTree" where
  "with_list t n =
     t\<lparr>tr_nodes := (tr_nodes t)[n := (tr_nodes t ! n)\<lparr>nd_children := Some (kids t n)\<rparr>]\<rparr>"

definition grow :: "LinkedTree \<Rightarrow> addr \<Rightarrow> string \<Rightarrow> LinkedTree" where
  "grow t n e =
     t\<lparr>tr_size := tr_size t + 1,
       tr_nodes := (tr_nodes t @ [\<lparr>nd_element = e, nd_parent = Some n, nd_children = None\<rparr>])
         [n := (tr_nodes t ! n)\<lparr>nd_children := Some (kids t n @ [length (tr_nodes t)])\<rparr>]\<rparr>"

section \<open>Construction\<close>

text \<open>The tree that holds one node, the root, with the label \<open>x\<close>; and the trees whose root
  is the first node and holds \<open>x\<close>.\<close>

definition single :: "addr \<Rightarrow> string \<Rightarrow> LinkedTree" where
  "single i x = \<lparr>tr_ident = i, tr_root = Some 0, tr_size = 1,
     tr_nodes = [\<lparr>nd_element = x, nd_parent = None, nd_children = None\<rparr>]\<rparr>"

definition rooted :: "string \<Rightarrow> LinkedTree \<Rightarrow> bool" where
  "rooted x t = (tr_root t = Some 0 \<and> tr_nodes t \<noteq> [] \<and> nd_element (tr_nodes t ! 0) = x)"

section \<open>Paths and traversals\<close>

text \<open>A list of positions in which each element but the last has the next one as its
  \<^verbatim>\<open>parent\<close>.\<close>

fun linked :: "LinkedTree \<Rightarrow> pyval list \<Rightarrow> bool" where
  "linked t (x # y # zs) = (parent t x = Inr y \<and> linked t (y # zs))"
| "linked t _ = True"

text \<open>
  The line that the traversals yield for the node \<open>n\<close>: as many TAB as \<^verbatim>\<open>depth\<close> returns for
  its position (\<open>level\<close>), its element, a newline.
\<close>

definition level :: "LinkedTree \<Rightarrow> addr \<Rightarrow> nat" where
  "level t n = (case depth t (Position (tr_ident t) n) of Some (Inr d) \<Rightarrow> d | _ \<Rightarrow> 0)"

definition line_of :: "LinkedTree \<Rightarrow> addr \<Rightarrow> string" where
  "line_of t n = replicate (level t n) TAB @ nd_element (tr_nodes t ! n) @ [NL]"

text \<open>
  The nodes below \<open>n\<close> in depth-first order, the children of a node in the order of its list
  of children: a node before its children (\<open>pre_nodes\<close>) and after them (\<open>post_nodes\<close>). The
  filter keeps the recursion well-founded on any store; in a well-formed tree it keeps every
  child.
\<close>

function pre_nodes :: "LinkedTree \<Rightarrow> addr \<Rightarrow> addr list" where
  "pre_nodes t n =
     n # concat (map (pre_nodes t) (filter (\<lambda>c. n < c \<and> c < length (tr_nodes t)) (kids t n)))"
  by pat_completeness auto
termination
  by (relation "measure (\<lambda>(t, n). length (tr_nodes t) - n)") auto

declare pre_nodes.simps [simp del]

function post_nodes :: "LinkedTree \<Rightarrow> addr \<Rightarrow> addr list" where
  "post_nodes t n =
     concat (map (post_nodes t) (filter (\<lambda>c. n < c \<and> c < length (tr_nodes t)) (kids t n))) @ [n]"
  by pat_completeness auto
termination
  by (relation "measure (\<lambda>(t, n). length (tr_nodes t) - n)") auto

declare post_nodes.simps [simp del]

text \<open>The tree of the example: the root \<^verbatim>\<open>A\<close>, then the children \<^verbatim>\<open>B\<close> and \<^verbatim>\<open>C\<close> of the root, added
  in that order.\<close>

definition abc :: LinkedTree where
  "abc = snd (add_nonroot_node
           (snd (add_nonroot_node (snd (add_root (LinkedTree_init 0) ''A'')) (Position 0 0) ''B''))
           (Position 0 0) ''C'')"

section \<open>Position validation\<close>

lemma validate_invalid:
  assumes "\<not> proper_type p \<or> foreign t p \<or> tombstoned t p"
  shows "\<exists>e. validate t p = Inl e \<and> InvalidPosition e"
  using assms by (cases p) (auto simp: InvalidPosition_def)

lemma foreign_make_position:
  "tr_ident a \<noteq> tr_ident t \<Longrightarrow> foreign t (make_position a (Some n))"
  by (simp add: make_position_def)

section \<open>The invariant and the mutating methods\<close>

lemma invar_init: "invar (LinkedTree_init i)"
  by (simp add: invar_def LinkedTree_init_def)

lemma invar_add_root:
  assumes "invar t"
  shows "invar (snd (add_root t e))"
proof (cases "tr_root t")
  case None
  with assms have "tr_nodes t = []"
    by (simp add: invar_def split: if_splits)
  with None show ?thesis
    by (simp add: invar_def add_root_def Let_def node_ok_def kids_def)
next
  case (Some r)
  with assms show ?thesis
    by (simp add: add_root_def)
qed

lemma validate_ok:
  assumes "invar t" "n < length (tr_nodes t)"
  shows "validate t (Position (tr_ident t) n) = Inr n"
proof -
  from assms have "node_ok t n" by (simp add: invar_def)
  then have "nd_parent (tr_nodes t ! n) \<noteq> Some n"
    by (auto simp: node_ok_def split: option.splits)
  then show ?thesis by simp
qed

lemma validate_Inr:
  assumes "validate t p = Inr n" "pos_ok t p"
  shows "p = Position (tr_ident t) n \<and> n < length (tr_nodes t)"
  using assms by (cases p) (auto split: if_splits)

lemma children_ok:
  assumes "invar t" "n < length (tr_nodes t)"
  shows "children t (Position (tr_ident t) n) = Inr (map (Position (tr_ident t)) (kids t n))"
  using validate_ok [OF assms]
  by (simp add: children_def kids_def make_position_def split: option.splits)

lemma kids_in_range:
  assumes "invar t" "n < length (tr_nodes t)" "c \<in> set (kids t n)"
  shows "c < length (tr_nodes t)" "nd_parent (tr_nodes t ! c) = Some n" "n < c"
proof -
  from assms have "node_ok t n" by (simp add: invar_def)
  with assms(3) show c: "c < length (tr_nodes t)" and p: "nd_parent (tr_nodes t ! c) = Some n"
    by (auto simp: node_ok_def)
  from assms(1) c have "node_ok t c" by (simp add: invar_def)
  with p show "n < c" by (simp add: node_ok_def)
qed

lemma find_loop_ok:
  assumes "invar t" "\<forall>c \<in> set cs. c < length (tr_nodes t)"
  shows "find_loop t (map (Position (tr_ident t)) cs) v =
     Inr (case List.find (\<lambda>c. nd_element (tr_nodes t ! c) = v) cs of
            None \<Rightarrow> PBool False | Some c \<Rightarrow> Position (tr_ident t) c)"
  using assms(2)
proof (induction cs)
  case Nil
  show ?case by simp
next
  case (Cons c cs)
  then have "validate t (Position (tr_ident t) c) = Inr c"
    using validate_ok [OF assms(1)] by simp
  with Cons show ?case by simp
qed

lemma find_child_by_value_ok:
  assumes "invar t" "n < length (tr_nodes t)"
  shows "find_child_by_value t (Position (tr_ident t) n) v =
     Inr (case List.find (\<lambda>c. nd_element (tr_nodes t ! c) = v) (kids t n) of
            None \<Rightarrow> PBool False | Some c \<Rightarrow> Position (tr_ident t) c)"
  using kids_in_range(1) [OF assms] find_loop_ok [OF assms(1), of "kids t n" v]
  by (simp add: find_child_by_value_def children_ok [OF assms])

lemma with_list_fields [simp]:
  "tr_ident (with_list t n) = tr_ident t"
  "tr_root (with_list t n) = tr_root t"
  "tr_size (with_list t n) = tr_size t"
  "length (tr_nodes (with_list t n)) = length (tr_nodes t)"
  by (simp_all add: with_list_def)

lemma with_list_nth:
  "tr_nodes (with_list t n) ! a =
     (if a = n \<and> n < length (tr_nodes t) then (tr_nodes t ! n)\<lparr>nd_children := Some (kids t n)\<rparr>
      else tr_nodes t ! a)"
proof (cases "n < length (tr_nodes t)")
  case True
  then show ?thesis by (simp add: with_list_def nth_list_update)
next
  case False
  then show ?thesis by (simp add: with_list_def list_update_beyond)
qed

lemma with_list_nodes [simp]:
  "nd_parent (tr_nodes (with_list t n) ! a) = nd_parent (tr_nodes t ! a)"
  "nd_element (tr_nodes (with_list t n) ! a) = nd_element (tr_nodes t ! a)"
  "kids (with_list t n) a = kids t a"
    apply (simp add: with_list_nth)
   apply (simp add: with_list_nth)
  apply (simp add: kids_def [of "with_list t n"] with_list_nth)
  apply (simp add: kids_def)
  done

lemma with_list_same:
  assumes "nd_children (tr_nodes t ! n) \<noteq> None"
  shows "with_list t n = t"
proof -
  from assms obtain cs where "nd_children (tr_nodes t ! n) = Some cs" by blast
  then have "(tr_nodes t ! n)\<lparr>nd_children := Some (kids t n)\<rparr> = tr_nodes t ! n"
    by (simp add: kids_def)
  then show ?thesis
    by (simp add: with_list_def)
qed

lemma with_list_empty [simp]: "(tr_nodes (with_list t n) = []) = (tr_nodes t = [])"
  by (simp add: with_list_def)

lemma node_ok_with_list: "node_ok (with_list t n) a = node_ok t a"
  by (simp add: node_ok_def split: option.splits)

lemma invar_with_list: "invar t \<Longrightarrow> invar (with_list t n)"
  by (simp add: invar_def node_ok_with_list)

lemma grow_fields [simp]:
  "tr_ident (grow t n e) = tr_ident t"
  "tr_root (grow t n e) = tr_root t"
  "tr_size (grow t n e) = tr_size t + 1"
  "length (tr_nodes (grow t n e)) = length (tr_nodes t) + 1"
  by (simp_all add: grow_def)

lemma grow_nth:
  assumes "n < length (tr_nodes t)" "a \<le> length (tr_nodes t)"
  shows "tr_nodes (grow t n e) ! a =
     (if a = n then (tr_nodes t ! n)\<lparr>nd_children := Some (kids t n @ [length (tr_nodes t)])\<rparr>
      else if a = length (tr_nodes t)
      then \<lparr>nd_element = e, nd_parent = Some n, nd_children = None\<rparr>
      else tr_nodes t ! a)"
  using assms by (simp add: grow_def nth_list_update nth_append)

lemma grow_nodes:
  assumes "n < length (tr_nodes t)" "a \<le> length (tr_nodes t)"
  shows "nd_parent (tr_nodes (grow t n e) ! a) =
           (if a = length (tr_nodes t) then Some n else nd_parent (tr_nodes t ! a))"
    and "nd_element (tr_nodes (grow t n e) ! a) =
           (if a = length (tr_nodes t) then e else nd_element (tr_nodes t ! a))"
    and "kids (grow t n e) a =
           (if a = n then kids t n @ [length (tr_nodes t)]
            else if a = length (tr_nodes t) then [] else kids t a)"
proof -
  note nth = grow_nth [OF assms]
  show "nd_parent (tr_nodes (grow t n e) ! a) =
           (if a = length (tr_nodes t) then Some n else nd_parent (tr_nodes t ! a))"
    using assms(1) by (simp add: nth)
  show "nd_element (tr_nodes (grow t n e) ! a) =
           (if a = length (tr_nodes t) then e else nd_element (tr_nodes t ! a))"
    using assms(1) by (simp add: nth)
  show "kids (grow t n e) a =
           (if a = n then kids t n @ [length (tr_nodes t)]
            else if a = length (tr_nodes t) then [] else kids t a)"
    unfolding kids_def [of "grow t n e"] nth
    by (simp add: kids_def)
qed

lemma node_okD:
  assumes "invar t" "a < length (tr_nodes t)"
  shows "nd_parent (tr_nodes t ! a) = None \<Longrightarrow> a = 0"
    and "nd_parent (tr_nodes t ! a) = Some b \<Longrightarrow> b < a \<and> a \<in> set (kids t b)"
    and "distinct (kids t a)"
proof -
  from assms have ok: "node_ok t a" by (simp add: invar_def)
  show "nd_parent (tr_nodes t ! a) = None \<Longrightarrow> a = 0"
    using ok by (simp add: node_ok_def)
  show "nd_parent (tr_nodes t ! a) = Some b \<Longrightarrow> b < a \<and> a \<in> set (kids t b)"
    using ok by (simp add: node_ok_def)
  show "distinct (kids t a)"
    using ok by (simp add: node_ok_def)
qed

lemma node_ok_grow_new:
  assumes "n < length (tr_nodes t)"
  shows "node_ok (grow t n e) (length (tr_nodes t))"
  using assms by (simp add: node_ok_def grow_nodes [OF assms])

lemma node_ok_grow_old:
  assumes "invar t" "n < length (tr_nodes t)" "a < length (tr_nodes t)"
  shows "node_ok (grow t n e) a"
proof -
  let ?N = "length (tr_nodes t)"
  from assms(3) have le: "a \<le> ?N" and ne: "a \<noteq> ?N" by simp_all
  have pg: "nd_parent (tr_nodes (grow t n e) ! a) = nd_parent (tr_nodes t ! a)"
    using ne by (simp add: grow_nodes(1) [OF assms(2) le])
  have par: "case nd_parent (tr_nodes (grow t n e) ! a) of None \<Rightarrow> a = 0
      | Some b \<Rightarrow> b < a \<and> a \<in> set (kids (grow t n e) b)"
  proof (cases "nd_parent (tr_nodes t ! a)")
    case None
    with node_okD(1) [OF assms(1,3)] show ?thesis
      unfolding pg by simp
  next
    case (Some b)
    from node_okD(2) [OF assms(1,3) Some] have b: "b < a" "a \<in> set (kids t b)" by simp_all
    then have "b \<le> ?N" "b \<noteq> ?N" using assms(3) by simp_all
    then have "a \<in> set (kids (grow t n e) b)"
      using b(2) by (auto simp: grow_nodes(3) [OF assms(2)])
    with Some b(1) show ?thesis
      unfolding pg by simp
  qed
  have kd: "c < ?N" "nd_parent (tr_nodes t ! c) = Some a" if "c \<in> set (kids t a)" for c
    using kids_in_range(1,2) [OF assms(1,3) that] .
  have new: "?N \<notin> set (kids t a)"
    using kd(1) by blast
  have dist: "distinct (kids (grow t n e) a)"
    using node_okD(3) [OF assms(1,3)] new ne
    by (auto simp: grow_nodes(3) [OF assms(2) le])
  have backlink: "c < ?N + 1 \<and> nd_parent (tr_nodes (grow t n e) ! c) = Some a"
    if c: "c \<in> set (kids (grow t n e) a)" for c
  proof (cases "c = ?N")
    case True
    with c new ne have "a = n"
      by (auto simp: grow_nodes(3) [OF assms(2) le] split: if_splits)
    with True show ?thesis
      by (simp add: grow_nodes(1) [OF assms(2)])
  next
    case False
    with c ne have "c \<in> set (kids t a)"
      by (auto simp: grow_nodes(3) [OF assms(2) le] split: if_splits)
    from kd [OF this] False show ?thesis
      by (simp add: grow_nodes(1) [OF assms(2)])
  qed
  show ?thesis
    unfolding node_ok_def using par dist backlink by simp
qed

lemma invar_grow:
  assumes "invar t" "n < length (tr_nodes t)"
  shows "invar (grow t n e)"
proof -
  have "node_ok (grow t n e) a" if "a < length (tr_nodes t) + 1" for a
    using that node_ok_grow_new [OF assms(2)] node_ok_grow_old [OF assms]
    by (cases "a = length (tr_nodes t)") simp_all
  then have "\<forall>a \<in> {0..<length (tr_nodes (grow t n e))}. node_ok (grow t n e) a"
    by simp
  moreover have "tr_nodes (grow t n e) \<noteq> []" "tr_nodes t \<noteq> []"
    using assms(2) by (auto simp: grow_def)
  ultimately show ?thesis
    using assms(1) by (simp add: invar_def)
qed

lemma truthy_find:
  "truthy (case List.find P cs of None \<Rightarrow> PBool False | Some c \<Rightarrow> Position i c) =
     (\<exists>c \<in> set cs. P c)"
  by (induction cs) simp_all

lemma add_nonroot_node_ok:
  assumes "invar t" "n < length (tr_nodes t)"
  shows "add_nonroot_node t (Position (tr_ident t) n) e =
     (if \<exists>c \<in> set (kids t n). nd_element (tr_nodes t ! c) = e
      then (Inr PNone, with_list t n)
      else (Inr (Position (tr_ident t) (length (tr_nodes t))), grow t n e))"
proof -
  let ?t1 = "with_list t n"
  let ?cs = "case nd_children (tr_nodes t ! n) of None \<Rightarrow> [] | Some l \<Rightarrow> l"
  have cs: "?cs = kids t n"
    by (simp add: kids_def)
  have t1: "t\<lparr>tr_nodes := (tr_nodes t)[n := (tr_nodes t ! n)\<lparr>nd_children := Some (kids t n)\<rparr>]\<rparr> = ?t1"
    by (simp add: with_list_def)
  have f: "find_child_by_value ?t1 (Position (tr_ident t) n) e =
     Inr (case List.find (\<lambda>c. nd_element (tr_nodes t ! c) = e) (kids t n) of
            None \<Rightarrow> PBool False | Some c \<Rightarrow> Position (tr_ident t) c)"
    using find_child_by_value_ok [OF invar_with_list [OF assms(1)], of n n e] assms(2)
    by (simp cong: option.case_cong)
  have n1: "tr_nodes ?t1 ! n = (tr_nodes t ! n)\<lparr>nd_children := Some (kids t n)\<rparr>"
    using assms(2) by (simp add: with_list_nth)
  have g: "?t1\<lparr>tr_size := len ?t1 + 1,
      tr_nodes := (tr_nodes ?t1 @ [\<lparr>nd_element = e, nd_parent = Some n, nd_children = None\<rparr>])
        [n := ((tr_nodes ?t1 @ [\<lparr>nd_element = e, nd_parent = Some n, nd_children = None\<rparr>]) ! n)
           \<lparr>nd_children := Some (kids t n @ [length (tr_nodes ?t1)])\<rparr>]\<rparr> = grow t n e"
    using assms(2)
    by (simp add: nth_append n1 len_def list_update_append)
       (simp add: with_list_def grow_def list_update_append)
  show ?thesis
    unfolding add_nonroot_node_def validate_ok [OF assms] sum.case cs Let_def t1 f truthy_find
    using g by (simp add: make_position_def)
qed

lemma add_nonroot_node_invalid:
  "validate t p = Inl err \<Longrightarrow> add_nonroot_node t p e = (Inl err, t)"
  by (simp add: add_nonroot_node_def)

lemma invar_add_nonroot_node:
  assumes "invar t" "pos_ok t p"
  shows "invar (snd (add_nonroot_node t p e))"
proof (cases "validate t p")
  case (Inl err)
  with assms(1) show ?thesis
    by (simp add: add_nonroot_node_invalid)
next
  case (Inr n)
  from validate_Inr [OF Inr assms(2)]
  have p: "p = Position (tr_ident t) n" and n: "n < length (tr_nodes t)" by simp_all
  show ?thesis
    unfolding p add_nonroot_node_ok [OF assms(1) n]
    using invar_with_list [OF assms(1), of n] invar_grow [OF assms(1) n, of e]
    by simp
qed

lemma snd_add_node:
  "snd (add_node t e p) = (if p = PNone then snd (add_root t e) else snd (add_nonroot_node t p e))"
  by (simp add: add_node_def split: prod.splits sum.splits)

lemma invar_add_node:
  assumes "invar t" "pos_ok t p"
  shows "invar (snd (add_node t e p))"
  using invar_add_root [OF assms(1)] invar_add_nonroot_node [OF assms]
  by (simp add: snd_add_node)

lemma built_invar: "built t \<Longrightarrow> invar t"
  by (induction rule: built.induct)
     (simp_all add: invar_init invar_add_root invar_add_nonroot_node invar_add_node)

lemma invar_size_root: "invar t \<Longrightarrow> (tr_size t = 0) = (tr_root t = None)"
  by (simp add: invar_def)

lemma with_list_children:
  "n < length (tr_nodes t) \<Longrightarrow> nd_children (tr_nodes (with_list t n) ! n) \<noteq> None"
  by (simp add: with_list_nth)

lemma grow_children:
  "n < length (tr_nodes t) \<Longrightarrow> nd_children (tr_nodes (grow t n e) ! n) \<noteq> None"
  by (simp add: grow_nth)

lemma find_snoc:
  "\<forall>c \<in> set cs. \<not> P c \<Longrightarrow> P x \<Longrightarrow> List.find P (cs @ [x]) = Some x"
  by (induction cs) simp_all

lemma find_child_by_value_grow:
  assumes "invar t" "n < length (tr_nodes t)"
    and "\<not> (\<exists>c \<in> set (kids t n). nd_element (tr_nodes t ! c) = e)"
  shows "find_child_by_value (grow t n e) (Position (tr_ident t) n) e =
     Inr (Position (tr_ident t) (length (tr_nodes t)))"
proof -
  let ?N = "length (tr_nodes t)"
  have n': "n < length (tr_nodes (grow t n e))" using assms(2) by simp
  have old: "nd_element (tr_nodes (grow t n e) ! c) \<noteq> e" if "c \<in> set (kids t n)" for c
  proof -
    from kids_in_range(1) [OF assms(1,2) that] have "c \<le> ?N" "c \<noteq> ?N" by simp_all
    with assms(3) that show ?thesis
      by (simp add: grow_nodes(2) [OF assms(2)])
  qed
  have new: "nd_element (tr_nodes (grow t n e) ! ?N) = e"
    by (simp add: grow_nodes(2) [OF assms(2)])
  have "List.find (\<lambda>c. nd_element (tr_nodes (grow t n e) ! c) = e) (kids t n @ [?N]) = Some ?N"
    using old new by (intro find_snoc) simp_all
  moreover have "kids (grow t n e) n = kids t n @ [?N]"
    using grow_nodes(3) [OF assms(2) less_imp_le [OF assms(2)], of e] by simp
  ultimately show ?thesis
    using find_child_by_value_ok [OF invar_grow [OF assms(1,2)] n', of e]
    by simp
qed

section \<open>Construction from lines\<close>

lemma split_nonempty: "split s \<noteq> []"
  by (induction s) (auto split: list.splits)

lemma fill_line_fresh:
  "fill_line (LinkedTree_init i) cursor line = (Inr cursor, single i (strip line))"
  by (simp add: fill_line_def is_empty_def len_def LinkedTree_init_def add_node_def add_root_def
      Let_def single_def)

lemma root_kept_add_nonroot_node:
  assumes "tr_nodes t \<noteq> []"
  shows "tr_root (snd (add_nonroot_node t p e)) = tr_root t \<and>
         tr_nodes (snd (add_nonroot_node t p e)) \<noteq> [] \<and>
         nd_element (tr_nodes (snd (add_nonroot_node t p e)) ! 0) = nd_element (tr_nodes t ! 0)"
proof -
  have upd: "nd_element (xs[n := (xs ! n)\<lparr>nd_children := c\<rparr>] ! 0) = nd_element (xs ! 0)"
    for xs :: "Node list" and n c
    by (cases "n < length xs"; cases n; simp add: nth_list_update)
  have upd': "nd_element (xs[n := (ys ! n)\<lparr>nd_children := c\<rparr>] ! 0) = nd_element (xs ! 0)"
    if "ys ! 0 = xs ! 0" for xs ys :: "Node list" and n c
    using that by (cases "n < length xs"; cases n; simp add: nth_list_update)
  show ?thesis
    using assms
    by (auto simp: add_nonroot_node_def Let_def upd upd' nth_append nth_list_update
        split: sum.splits)
qed

lemma rooted_single: "rooted x (single i x)"
  by (simp add: rooted_def single_def)

lemma rooted_add_node:
  assumes "rooted x t"
  shows "rooted x (snd (add_node t e p))"
proof -
  from assms have ne: "tr_nodes t \<noteq> []" and r: "tr_root t = Some 0"
    by (simp_all add: rooted_def)
  have "snd (add_root t e) = t"
    using r by (simp add: add_root_def)
  moreover have "rooted x (snd (add_nonroot_node t p e))"
    using root_kept_add_nonroot_node [OF ne, of p e] assms by (simp add: rooted_def)
  ultimately show ?thesis
    using assms by (simp add: snd_add_node)
qed

lemma rooted_fill_label:
  assumes "rooted x t"
  shows "rooted x (snd (fill_label t cursor nd))"
  using assms rooted_add_node [OF assms, of "strip nd" cursor]
  by (auto simp: fill_label_def split: sum.splits prod.splits)

lemma rooted_fill_labels:
  "rooted x t \<Longrightarrow> rooted x (snd (fill_labels t cursor nodes))"
proof (induction nodes arbitrary: t cursor)
  case Nil
  then show ?case by simp
next
  case (Cons nd nodes)
  from rooted_fill_label [OF Cons.prems, of cursor nd] Cons.IH
  show ?case by (auto split: prod.splits sum.splits)
qed

lemma rooted_fill_line:
  assumes "rooted x t"
  shows "rooted x (snd (fill_line t cursor line))"
  using rooted_add_node [OF assms, of "strip line" PNone] rooted_fill_labels [OF assms]
  by (auto simp: fill_line_def split: prod.splits sum.splits)

lemma rooted_fill_lines:
  "rooted x t \<Longrightarrow> rooted x (snd (fill_lines t cursor rest))"
proof (induction rest arbitrary: t cursor)
  case Nil
  then show ?case by simp
next
  case (Cons line rest)
  from rooted_fill_line [OF Cons.prems, of cursor line] Cons.IH
  show ?case by (auto split: prod.splits sum.splits)
qed

lemma find_child_by_value_None:
  "find_child_by_value t PNone v = Inl (TypeError ''p must be proper Position type'')"
  by (simp add: find_child_by_value_def children_def)

section \<open>Depth and path to the root\<close>

lemma linked_nth:
  "linked t xs \<Longrightarrow> Suc k < length xs \<Longrightarrow> parent t (xs ! k) = Inr (xs ! Suc k)"
proof (induction t xs arbitrary: k rule: linked.induct)
  case (1 t x y zs)
  then show ?case by (cases k) simp_all
qed simp_all

lemma root_ok:
  assumes "invar t" "n < length (tr_nodes t)"
  shows "root t = Position (tr_ident t) 0"
proof -
  from assms have "tr_root t = Some 0"
    by (auto simp: invar_def)
  then show ?thesis by (simp add: root_def make_position_def)
qed

lemma is_root_ok:
  assumes "invar t" "n < length (tr_nodes t)"
  shows "is_root t (Position (tr_ident t) n) = (n = 0)"
  by (simp add: is_root_def root_ok [OF assms])

lemma parent_ok:
  assumes "invar t" "n < length (tr_nodes t)"
  shows "parent t (Position (tr_ident t) n) = Inr (make_position t (nd_parent (tr_nodes t ! n)))"
  unfolding parent_def validate_ok [OF assms] by simp

lemma path_and_depth:
  assumes "invar t" "n < length (tr_nodes t)"
  shows "\<exists>ps d. path_loop t (Position (tr_ident t) n) acc = Some (Inr (acc @ ps)) \<and>
           depth t (Position (tr_ident t) n) = Some (Inr d) \<and> length ps = d \<and>
           last (Position (tr_ident t) n # ps) = root t \<and>
           linked t (Position (tr_ident t) n # ps)"
  using assms(2)
proof (induction n arbitrary: acc rule: less_induct)
  case (less n)
  let ?p = "Position (tr_ident t) n"
  note n = less.prems
  show ?case
  proof (cases "n = 0")
    case True
    have r: "is_root t ?p" using is_root_ok [OF assms(1) n] True by simp
    have "path_loop t ?p acc = Some (Inr (acc @ []))"
      by (subst path_loop.simps) (simp add: r)
    moreover have "depth t ?p = Some (Inr 0)"
      by (subst depth.simps) (simp add: r)
    moreover have "last [?p] = root t"
      using root_ok [OF assms(1) n] True by simp
    ultimately show ?thesis
      by (intro exI [of _ "[]"] exI [of _ 0]) simp
  next
    case False
    have r: "\<not> is_root t ?p" using is_root_ok [OF assms(1) n] False by simp
    from node_okD(1) [OF assms(1) n] False
    obtain b where b: "nd_parent (tr_nodes t ! n) = Some b" by (cases "nd_parent (tr_nodes t ! n)") auto
    from node_okD(2) [OF assms(1) n b] have bn: "b < n" by simp
    then have bN: "b < length (tr_nodes t)" using n by simp
    let ?q = "Position (tr_ident t) b"
    have par: "parent t ?p = Inr ?q"
      by (simp add: parent_ok [OF assms(1) n] b make_position_def)
    from less.IH [OF bn bN, of "acc @ [?q]"]
    obtain ps d where ih: "path_loop t ?q (acc @ [?q]) = Some (Inr ((acc @ [?q]) @ ps))"
      "depth t ?q = Some (Inr d)" "length ps = d" "last (?q # ps) = root t" "linked t (?q # ps)"
      by blast
    have "path_loop t ?p acc = Some (Inr (acc @ (?q # ps)))"
      by (subst path_loop.simps) (simp add: r par ih(1))
    moreover have "depth t ?p = Some (Inr (1 + d))"
      by (subst depth.simps) (simp add: r par ih(2))
    moreover have "last (?p # ?q # ps) = root t"
      using ih(4) by simp
    moreover have "linked t (?p # ?q # ps)"
      using par ih(5) by simp
    ultimately show ?thesis
      using ih(3) by (intro exI [of _ "?q # ps"] exI [of _ "1 + d"]) simp
  qed
qed

section \<open>Traversals\<close>

lemma kids_filter:
  assumes "invar t" "n < length (tr_nodes t)"
  shows "filter (\<lambda>c. n < c \<and> c < length (tr_nodes t)) (kids t n) = kids t n"
  using kids_in_range(1,3) [OF assms] by (simp add: filter_id_conv)

lemma pre_nodes_eq:
  assumes "invar t" "n < length (tr_nodes t)"
  shows "pre_nodes t n = n # concat (map (pre_nodes t) (kids t n))"
  by (subst pre_nodes.simps) (simp add: kids_filter [OF assms])

lemma post_nodes_eq:
  assumes "invar t" "n < length (tr_nodes t)"
  shows "post_nodes t n = concat (map (post_nodes t) (kids t n)) @ [n]"
  by (subst post_nodes.simps) (simp add: kids_filter [OF assms])

lemma depth_ok:
  assumes "invar t" "n < length (tr_nodes t)"
  shows "depth t (Position (tr_ident t) n) = Some (Inr (level t n))"
proof -
  from path_and_depth [OF assms, of "[]"]
  obtain d where "depth t (Position (tr_ident t) n) = Some (Inr d)" by blast
  then show ?thesis by (simp add: level_def)
qed

lemma node_line_ok:
  assumes "invar t" "n < length (tr_nodes t)"
  shows "node_line t (Position (tr_ident t) n) = Some (Inr (line_of t n))"
  unfolding node_line_def depth_ok [OF assms] validate_ok [OF assms]
  by (simp add: line_of_def)

lemma yield_from_each_ok:
  assumes "\<And>c. c \<in> set cs \<Longrightarrow> f (g c) = Some (h c, None)"
  shows "yield_from_each f (map g cs) = Some (concat (map h cs), None)"
  using assms by (induction cs) simp_all

lemma traverse_preorder_ok:
  assumes "invar t" "n < length (tr_nodes t)"
  shows "traverse_preorder t (Position (tr_ident t) n) = Some (map (line_of t) (pre_nodes t n), None)"
  using assms(2)
proof (induction "length (tr_nodes t) - n" arbitrary: n rule: less_induct)
  case less
  note n = less.prems
  have ih: "traverse_preorder t (Position (tr_ident t) c) =
      Some (map (line_of t) (pre_nodes t c), None)" if "c \<in> set (kids t n)" for c
    using kids_in_range(1,3) [OF assms(1) n that] n
    by (intro less.hyps) simp_all
  have each: "yield_from_each (\<lambda>child. traverse_preorder t child)
      (map (Position (tr_ident t)) (kids t n)) =
      Some (concat (map (\<lambda>c. map (line_of t) (pre_nodes t c)) (kids t n)), None)"
    by (rule yield_from_each_ok) (rule ih)
  show ?case
    by (subst traverse_preorder.simps)
       (simp add: node_line_ok [OF assms(1) n] children_ok [OF assms(1) n] each
          pre_nodes_eq [OF assms(1) n] map_concat comp_def)
qed

lemma traverse_postorder_ok:
  assumes "invar t" "n < length (tr_nodes t)"
  shows "traverse_postorder t (Position (tr_ident t) n) = Some (map (line_of t) (post_nodes t n), None)"
  using assms(2)
proof (induction "length (tr_nodes t) - n" arbitrary: n rule: less_induct)
  case less
  note n = less.prems
  have ih: "traverse_postorder t (Position (tr_ident t) c) =
      Some (map (line_of t) (post_nodes t c), None)" if "c \<in> set (kids t n)" for c
    using kids_in_range(1,3) [OF assms(1) n that] n
    by (intro less.hyps) simp_all
  have each: "yield_from_each (\<lambda>child. traverse_postorder t child)
      (map (Position (tr_ident t)) (kids t n)) =
      Some (concat (map (\<lambda>c. map (line_of t) (post_nodes t c)) (kids t n)), None)"
    by (rule yield_from_each_ok) (rule ih)
  show ?case
    by (subst traverse_postorder.simps)
       (simp add: node_line_ok [OF assms(1) n] children_ok [OF assms(1) n] each
          post_nodes_eq [OF assms(1) n] map_concat comp_def)
qed

lemma pre_nodes_ge: "a \<in> set (pre_nodes t n) \<Longrightarrow> n \<le> a"
proof (induction t n arbitrary: a rule: pre_nodes.induct)
  case (1 t n)
  from "1.prems" show ?case
    by (subst (asm) pre_nodes.simps) (auto dest!: "1.IH" [rotated])
qed

lemma pre_nodes_self: "n \<in> set (pre_nodes t n)"
  by (subst pre_nodes.simps) simp

lemma pre_nodes_hd: "hd (pre_nodes t n) = n"
  by (subst pre_nodes.simps) simp

lemma pre_nodes_kid:
  assumes "invar t" "n < length (tr_nodes t)" "c \<in> set (kids t n)"
  shows "set (pre_nodes t c) \<subseteq> set (pre_nodes t n)"
proof -
  have "pre_nodes t n = n # concat (map (pre_nodes t) (kids t n))"
    by (rule pre_nodes_eq [OF assms(1,2)])
  with assms(3) show ?thesis by auto
qed

lemma pre_nodes_cases:
  assumes "invar t" "n < length (tr_nodes t)" "a \<in> set (pre_nodes t n)"
  obtains "a = n" | c where "c \<in> set (kids t n)" "a \<in> set (pre_nodes t c)"
proof -
  have "pre_nodes t n = n # concat (map (pre_nodes t) (kids t n))"
    by (rule pre_nodes_eq [OF assms(1,2)])
  with assms(3) that show ?thesis by auto
qed

lemma pre_nodes_range:
  assumes "invar t" "n < length (tr_nodes t)" "a \<in> set (pre_nodes t n)"
  shows "a < length (tr_nodes t)"
  using assms(2,3)
proof (induction "length (tr_nodes t) - n" arbitrary: n rule: less_induct)
  case less
  show ?case
  proof (cases rule: pre_nodes_cases [OF assms(1) less.prems(1) less.prems(2)])
    case 1
    with less.prems(1) show ?thesis by simp
  next
    case (2 c)
    from kids_in_range(1,3) [OF assms(1) less.prems(1) 2(1)] less.prems(1) 2(2)
    show ?thesis by (intro less.hyps [of c]) simp_all
  qed
qed

lemma pre_nodes_parent:
  assumes "invar t" "n < length (tr_nodes t)" "a \<in> set (pre_nodes t n)" "a \<noteq> n"
  shows "\<exists>b. nd_parent (tr_nodes t ! a) = Some b \<and> b \<in> set (pre_nodes t n)"
  using assms(2,3,4)
proof (induction "length (tr_nodes t) - n" arbitrary: n rule: less_induct)
  case less
  show ?case
  proof (cases rule: pre_nodes_cases [OF assms(1) less.prems(1) less.prems(2)])
    case 1
    with less.prems(3) show ?thesis by simp
  next
    case (2 c)
    note c = kids_in_range [OF assms(1) less.prems(1) 2(1)]
    note sub = pre_nodes_kid [OF assms(1) less.prems(1) 2(1)]
    show ?thesis
    proof (cases "a = c")
      case True
      with c(2) pre_nodes_self [of n t] show ?thesis by simp
    next
      case False
      from c(1,3) less.prems(1) 2(2) False
      have "\<exists>b. nd_parent (tr_nodes t ! a) = Some b \<and> b \<in> set (pre_nodes t c)"
        by (intro less.hyps [of c]) simp_all
      with sub show ?thesis by blast
    qed
  qed
qed

lemma pre_nodes_closed:
  assumes "invar t" "n < length (tr_nodes t)" "b \<in> set (pre_nodes t n)" "a \<in> set (kids t b)"
  shows "a \<in> set (pre_nodes t n)"
  using assms(2,3)
proof (induction "length (tr_nodes t) - n" arbitrary: n rule: less_induct)
  case less
  show ?case
  proof (cases rule: pre_nodes_cases [OF assms(1) less.prems(1) less.prems(2)])
    case 1
    with pre_nodes_kid [OF assms(1) less.prems(1), of a] assms(4) pre_nodes_self [of a t]
    show ?thesis by blast
  next
    case (2 c)
    note c = kids_in_range [OF assms(1) less.prems(1) 2(1)]
    from c(1,3) less.prems(1) 2(2)
    have "a \<in> set (pre_nodes t c)"
      by (intro less.hyps [of c]) simp_all
    with pre_nodes_kid [OF assms(1) less.prems(1) 2(1)] show ?thesis by blast
  qed
qed

lemma pre_nodes_all:
  assumes "invar t" "a < length (tr_nodes t)"
  shows "a \<in> set (pre_nodes t 0)"
  using assms(2)
proof (induction a rule: less_induct)
  case (less a)
  show ?case
  proof (cases "nd_parent (tr_nodes t ! a)")
    case None
    with node_okD(1) [OF assms(1) less.prems] pre_nodes_self [of 0 t] show ?thesis by simp
  next
    case (Some b)
    from node_okD(2) [OF assms(1) less.prems Some] have b: "b < a" "a \<in> set (kids t b)"
      by simp_all
    from b(1) less.prems have bN: "b < length (tr_nodes t)" by simp
    have z: "0 < length (tr_nodes t)" using less.prems by (cases "tr_nodes t") simp_all
    from pre_nodes_closed [OF assms(1) z less.IH [OF b(1) bN] b(2)] show ?thesis .
  qed
qed

lemma pre_nodes_disjoint:
  assumes "invar t" "n < length (tr_nodes t)"
    and "c1 \<in> set (kids t n)" "c2 \<in> set (kids t n)" "c1 \<noteq> c2"
  shows "set (pre_nodes t c1) \<inter> set (pre_nodes t c2) = {}"
proof -
  note k1 = kids_in_range [OF assms(1,2,3)]
  note k2 = kids_in_range [OF assms(1,2,4)]
  have top: False if "c \<in> set (kids t n)" "c' \<in> set (kids t n)" "c \<in> set (pre_nodes t c')" "c \<noteq> c'"
    for c c'
  proof -
    note kc = kids_in_range [OF assms(1,2) that(1)]
    note kc' = kids_in_range [OF assms(1,2) that(2)]
    from pre_nodes_parent [OF assms(1) kc'(1) that(3,4)] kc(2)
    have "n \<in> set (pre_nodes t c')" by simp
    from pre_nodes_ge [OF this] kc'(3) show False by simp
  qed
  have "a \<in> set (pre_nodes t c1) \<Longrightarrow> a \<in> set (pre_nodes t c2) \<Longrightarrow> False" for a
  proof (induction a rule: less_induct)
    case (less a)
    show ?case
    proof (cases "a = c1 \<or> a = c2")
      case True
      then show ?thesis
        using top [OF assms(3,4)] top [OF assms(4,3)] less.prems assms(5) by auto
    next
      case False
      from pre_nodes_parent [OF assms(1) k1(1) less.prems(1)] False
      obtain b where b: "nd_parent (tr_nodes t ! a) = Some b" "b \<in> set (pre_nodes t c1)"
        by auto
      from pre_nodes_parent [OF assms(1) k2(1) less.prems(2)] False b(1)
      have b2: "b \<in> set (pre_nodes t c2)" by auto
      have "a < length (tr_nodes t)"
        by (rule pre_nodes_range [OF assms(1) k1(1) less.prems(1)])
      from node_okD(2) [OF assms(1) this b(1)] have "b < a" by simp
      from less.IH [OF this b(2) b2] show False .
    qed
  qed
  then show ?thesis by blast
qed

lemma pre_nodes_distinct:
  assumes "invar t" "n < length (tr_nodes t)"
  shows "distinct (pre_nodes t n)"
  using assms(2)
proof (induction "length (tr_nodes t) - n" arbitrary: n rule: less_induct)
  case less
  note n = less.prems
  have each: "distinct (pre_nodes t c)" if "c \<in> set (kids t n)" for c
    using kids_in_range(1,3) [OF assms(1) n that] n
    by (intro less.hyps) simp_all
  have inj: "inj_on (pre_nodes t) (set (kids t n))"
    by (rule inj_on_inverseI [where g = hd]) (rule pre_nodes_hd)
  have d1: "distinct (map (pre_nodes t) (kids t n))"
    using node_okD(3) [OF assms(1) n] inj by (simp add: distinct_map)
  have d2: "distinct (concat (map (pre_nodes t) (kids t n)))"
  proof (rule distinct_concat [OF d1])
    fix ys assume "ys \<in> set (map (pre_nodes t) (kids t n))"
    then show "distinct ys" using each by auto
  next
    fix ys zs
    assume "ys \<in> set (map (pre_nodes t) (kids t n))" "zs \<in> set (map (pre_nodes t) (kids t n))"
      "ys \<noteq> zs"
    then obtain c1 c2 where "c1 \<in> set (kids t n)" "c2 \<in> set (kids t n)"
        "ys = pre_nodes t c1" "zs = pre_nodes t c2" "c1 \<noteq> c2"
      by auto
    then show "set ys \<inter> set zs = {}"
      using pre_nodes_disjoint [OF assms(1) n] by simp
  qed
  have d3: "n \<notin> set (concat (map (pre_nodes t) (kids t n)))"
  proof
    assume "n \<in> set (concat (map (pre_nodes t) (kids t n)))"
    then obtain c where c: "c \<in> set (kids t n)" "n \<in> set (pre_nodes t c)" by auto
    from pre_nodes_ge [OF c(2)] kids_in_range(3) [OF assms(1) n c(1)] show False by simp
  qed
  show ?case
    using d2 d3 by (subst pre_nodes_eq [OF assms(1) n]) simp
qed

lemma post_nodes_mset:
  assumes "invar t" "n < length (tr_nodes t)"
  shows "mset (post_nodes t n) = mset (pre_nodes t n)"
  using assms(2)
proof (induction "length (tr_nodes t) - n" arbitrary: n rule: less_induct)
  case less
  note n = less.prems
  have each: "mset (post_nodes t c) = mset (pre_nodes t c)" if "c \<in> set (kids t n)" for c
    using kids_in_range(1,3) [OF assms(1) n that] n
    by (intro less.hyps) simp_all
  have m: "map (\<lambda>c. mset (post_nodes t c)) (kids t n) = map (\<lambda>c. mset (pre_nodes t c)) (kids t n)"
    by (rule map_cong) (simp_all add: each)
  have "(\<Sum>c\<leftarrow>kids t n. mset (post_nodes t c)) = (\<Sum>c\<leftarrow>kids t n. mset (pre_nodes t c))"
    by (simp only: m)
  then show ?case
    by (simp add: pre_nodes_eq [OF assms(1) n] post_nodes_eq [OF assms(1) n] mset_concat comp_def)
qed

lemma pre_nodes_perm:
  assumes "invar t" "tr_nodes t \<noteq> []"
  shows "mset (pre_nodes t 0) = mset [0..<tr_size t]"
proof -
  have z: "0 < length (tr_nodes t)" using assms(2) by simp
  have "set (pre_nodes t 0) = {0..<length (tr_nodes t)}"
    using pre_nodes_all [OF assms(1)] pre_nodes_range [OF assms(1) z] by auto
  moreover have "tr_size t = length (tr_nodes t)"
    using assms(1) by (simp add: invar_def)
  ultimately have "mset_set (set (pre_nodes t 0)) = mset [0..<tr_size t]"
    by simp
  then show ?thesis
    by (simp only: mset_set_set [OF pre_nodes_distinct [OF assms(1) z]])
qed

lemma kids_add_nonroot_node:
  assumes "invar t" "n < length (tr_nodes t)"
    and "\<forall>c \<in> set (kids t n). nd_element (tr_nodes t ! c) \<noteq> e"
  shows "kids (snd (add_nonroot_node t (Position (tr_ident t) n) e)) n =
     kids t n @ [length (tr_nodes t)]"
  using assms(3) grow_nodes(3) [OF assms(2) less_imp_le [OF assms(2)], of e]
  by (simp add: add_nonroot_node_ok [OF assms(1,2)])

lemma abc_traversals:
  "all_nodes abc ''pre'' =
     Some ([''A'' @ [NL], TAB # ''B'' @ [NL], TAB # ''C'' @ [NL]], None) \<and>
   all_nodes abc ''post'' =
     Some ([TAB # ''B'' @ [NL], TAB # ''C'' @ [NL], ''A'' @ [NL]], None)"
  by code_simp

section \<open>The trees that fill_tree builds are well-formed\<close>

lemma pos_ok_root:
  assumes "invar t"
  shows "pos_ok t (root t)"
  using assms by (auto simp: invar_def root_def make_position_def split: if_splits)

lemma add_nonroot_node_grows:
  assumes "invar t" "pos_ok t p"
  shows "tr_ident (snd (add_nonroot_node t p e)) = tr_ident t \<and>
         length (tr_nodes t) \<le> length (tr_nodes (snd (add_nonroot_node t p e)))"
proof (cases "validate t p")
  case (Inl err)
  then show ?thesis by (simp add: add_nonroot_node_invalid)
next
  case (Inr n)
  from validate_Inr [OF Inr assms(2)]
  have p: "p = Position (tr_ident t) n" and n: "n < length (tr_nodes t)" by simp_all
  show ?thesis
    unfolding p add_nonroot_node_ok [OF assms(1) n] by simp
qed

lemma add_root_grows:
  "tr_ident (snd (add_root t e)) = tr_ident t \<and>
   length (tr_nodes t) \<le> length (tr_nodes (snd (add_root t e)))"
  by (simp add: add_root_def Let_def)

lemma add_node_grows:
  assumes "invar t" "pos_ok t p"
  shows "tr_ident (snd (add_node t e p)) = tr_ident t \<and>
         length (tr_nodes t) \<le> length (tr_nodes (snd (add_node t e p)))"
  using add_root_grows [of t e] add_nonroot_node_grows [OF assms, of e]
  by (simp add: snd_add_node)

lemma pos_ok_mono:
  assumes "pos_ok t c" "tr_ident t' = tr_ident t" "length (tr_nodes t) \<le> length (tr_nodes t')"
  shows "pos_ok t' c"
  using assms by (cases c) auto

lemma pos_ok_find:
  assumes "invar t" "pos_ok t p" "find_child_by_value t p v = Inr c"
  shows "pos_ok t c"
proof (cases "validate t p")
  case (Inl err)
  with assms(3) show ?thesis
    by (simp add: find_child_by_value_def children_def)
next
  case (Inr n)
  from validate_Inr [OF Inr assms(2)]
  have p: "p = Position (tr_ident t) n" and n: "n < length (tr_nodes t)" by simp_all
  from assms(3) have c: "c = (case List.find (\<lambda>c. nd_element (tr_nodes t ! c) = v) (kids t n) of
      None \<Rightarrow> PBool False | Some c \<Rightarrow> Position (tr_ident t) c)"
    unfolding p find_child_by_value_ok [OF assms(1) n] by simp
  show ?thesis
  proof (cases "List.find (\<lambda>c. nd_element (tr_nodes t ! c) = v) (kids t n)")
    case None
    with c show ?thesis by simp
  next
    case (Some k)
    then have "k \<in> set (kids t n)"
      by (auto simp: find_Some_iff)
    from kids_in_range(1) [OF assms(1) n this] c Some show ?thesis by simp
  qed
qed

lemma fill_label_built:
  assumes "built t" "pos_ok t cursor"
  shows "built (snd (fill_label t cursor nd)) \<and>
         (\<forall>c. fst (fill_label t cursor nd) = Inr c \<longrightarrow> pos_ok (snd (fill_label t cursor nd)) c)"
proof -
  note i = built_invar [OF assms(1)]
  note b = built.by_add_node [OF assms, of "strip nd"]
  note g = add_node_grows [OF i assms(2), of "strip nd"]
  have keep: "pos_ok (snd (add_node t (strip nd) cursor)) cursor"
    using pos_ok_mono [OF assms(2)] g by blast
  have look: "pos_ok t c" if "find_child_by_value t (root t) (strip nd) = Inr c" for c
    by (rule pos_ok_find [OF i pos_ok_root [OF i] that])
  show ?thesis
    using assms(1) b keep look pos_ok_root [OF i]
    by (auto simp: fill_label_def split: sum.splits prod.splits)
qed

lemma fill_labels_built:
  "built t \<Longrightarrow> pos_ok t cursor \<Longrightarrow>
     built (snd (fill_labels t cursor nodes)) \<and>
     (\<forall>c. fst (fill_labels t cursor nodes) = Inr c \<longrightarrow> pos_ok (snd (fill_labels t cursor nodes)) c)"
proof (induction nodes arbitrary: t cursor)
  case Nil
  then show ?case by simp
next
  case (Cons nd nodes)
  from fill_label_built [OF Cons.prems, of nd] Cons.IH
  show ?case by (auto split: prod.splits sum.splits)
qed

lemma fill_line_built:
  assumes "built t" "pos_ok t cursor"
  shows "built (snd (fill_line t cursor line)) \<and>
         (\<forall>c. fst (fill_line t cursor line) = Inr c \<longrightarrow> pos_ok (snd (fill_line t cursor line)) c)"
proof -
  note i = built_invar [OF assms(1)]
  have ok: "pos_ok t PNone" by simp
  note b = built.by_add_node [OF assms(1) ok, of "strip line"]
  note g = add_node_grows [OF i ok, of "strip line"]
  have keep: "pos_ok (snd (add_node t (strip line) PNone)) cursor"
    using pos_ok_mono [OF assms(2)] g by blast
  show ?thesis
    using b keep fill_labels_built [OF assms, of "split line"]
    by (auto simp: fill_line_def split: sum.splits prod.splits)
qed

lemma fill_lines_built:
  "built t \<Longrightarrow> pos_ok t cursor \<Longrightarrow> built (snd (fill_lines t cursor rest))"
proof (induction rest arbitrary: t cursor)
  case Nil
  then show ?case by simp
next
  case (Cons line rest)
  from fill_line_built [OF Cons.prems, of line] Cons.IH
  show ?case by (auto split: prod.splits sum.splits)
qed

lemma fill_tree_built: "built (snd (fill_tree i lines))"
  unfolding fill_tree_def by (rule fill_lines_built [OF built.fresh]) simp

lemma fill_tree_invar: "invar (snd (fill_tree i lines))"
  by (rule built_invar [OF fill_tree_built])

text \<open>
  C1 (the code differs). After the lines \<^verbatim>\<open>A\<close>, \<^verbatim>\<open>A,B\<close>, \<^verbatim>\<open>A,B,C\<close> the tree is the chain A, B, C
  and the cursor is at B. For the label \<^verbatim>\<open>C\<close> the test \<^verbatim>\<open>find_child_by_value(parent, 'C')\<close> finds
  the child C of the cursor, but the assignment looks \<^verbatim>\<open>C\<close> up among the children of the
  root: the cursor becomes \<^verbatim>\<open>False\<close>, not the position of C. A fourth line \<^verbatim>\<open>A,B,C\<close> therefore
  ends with the cursor \<^verbatim>\<open>False\<close>, and a fourth line \<^verbatim>\<open>A,B,C,D\<close> raises TypeError at \<^verbatim>\<open>D\<close>.
\<close>

theorem cursor_set_from_root_children:
  "fill_tree 0 [''A'' @ [NL], ''A,B'' @ [NL], ''A,B,C'' @ [NL]] =
     (Inr (Position 0 1),
      \<lparr>tr_ident = 0, tr_root = Some 0, tr_size = 3,
        tr_nodes = [\<lparr>nd_element = ''A'', nd_parent = None, nd_children = Some [1]\<rparr>,
                    \<lparr>nd_element = ''B'', nd_parent = Some 0, nd_children = Some [2]\<rparr>,
                    \<lparr>nd_element = ''C'', nd_parent = Some 1, nd_children = None\<rparr>]\<rparr>) \<and>
   find_child_by_value (snd (fill_tree 0 [''A'' @ [NL], ''A,B'' @ [NL], ''A,B,C'' @ [NL]]))
     (Position 0 1) ''C'' = Inr (Position 0 2) \<and>
   fill_label (snd (fill_tree 0 [''A'' @ [NL], ''A,B'' @ [NL], ''A,B,C'' @ [NL]]))
     (Position 0 1) (''C'' @ [NL]) =
     (Inr (PBool False), snd (fill_tree 0 [''A'' @ [NL], ''A,B'' @ [NL], ''A,B,C'' @ [NL]])) \<and>
   fst (fill_tree 0 [''A'' @ [NL], ''A,B'' @ [NL], ''A,B,C'' @ [NL], ''A,B,C'' @ [NL]]) =
     Inr (PBool False) \<and>
   fst (fill_tree 0 [''A'' @ [NL], ''A,B'' @ [NL], ''A,B,C'' @ [NL], ''A,B,C,D'' @ [NL]]) =
     Inl (TypeError ''p must be proper Position type'')"
  by code_simp

text \<open>
  C2 (the code differs). With no line, \<^verbatim>\<open>fill_tree\<close> leaves the fresh tree: size 0, no root.
  \<^verbatim>\<open>print_tree\<close> then opens \<^verbatim>\<open>pre.txt\<close> and starts the pre-order traversal at \<^verbatim>\<open>root()\<close>, which
  is \<^verbatim>\<open>None\<close>: \<^verbatim>\<open>depth(None)\<close> is 0 and \<^verbatim>\<open>_validate(None)\<close> raises TypeError before any line is
  yielded. \<^verbatim>\<open>pre.txt\<close> is left empty, \<^verbatim>\<open>post.txt\<close> is never opened, and the call raises.
\<close>

theorem print_tree_empty_input:
  "fill_tree i [] = (Inr PNone, LinkedTree_init i) \<and>
   tr_size (snd (fill_tree i [])) = 0 \<and> tr_root (snd (fill_tree i [])) = None \<and>
   print_tree (snd (fill_tree i [])) =
     Some \<lparr>pre_txt = Some [], post_txt = None,
           raised = Some (TypeError ''p must be proper Position type'')\<rparr>"
proof -
  have f: "fill_tree i [] = (Inr PNone, LinkedTree_init i)"
    by (simp add: fill_tree_def)
  have r: "root (LinkedTree_init i) = PNone"
    by (simp add: root_def make_position_def LinkedTree_init_def)
  have d: "depth (LinkedTree_init i) PNone = Some (Inr 0)"
    by (subst depth.simps) (simp add: is_root_def r)
  have l: "node_line (LinkedTree_init i) PNone =
      Some (Inl (TypeError ''p must be proper Position type''))"
    by (simp add: node_line_def d)
  have p: "traverse_preorder (LinkedTree_init i) PNone =
      Some ([], Some (TypeError ''p must be proper Position type''))"
    by (subst traverse_preorder.simps) (simp add: l)
  have e: "tr_size (LinkedTree_init i) = 0" "tr_root (LinkedTree_init i) = None"
    by (simp_all add: LinkedTree_init_def)
  show ?thesis
    by (simp add: f e print_tree_def all_nodes_def r p)
qed

text \<open>
  C3 (amended). The claim has the second call return the position that the first call
  returned. In the code the second call finds the child and ends in a bare \<^verbatim>\<open>return\<close>: on the
  tree with the root \<^verbatim>\<open>A\<close> alone, \<^verbatim>\<open>_add_nonroot_node(root, 'B')\<close> returns the position of the new
  node and the same call again returns \<^verbatim>\<open>None\<close>.
\<close>

theorem add_child_twice_counterexample:
  "fst (add_nonroot_node (snd (add_root (LinkedTree_init 0) ''A'')) (Position 0 0) ''B'') =
     Inr (Position 0 1) \<and>
   fst (add_nonroot_node
         (snd (add_nonroot_node (snd (add_root (LinkedTree_init 0) ''A'')) (Position 0 0) ''B''))
         (Position 0 0) ''B'') = Inr PNone \<and>
   fst (add_nonroot_node
         (snd (add_nonroot_node (snd (add_root (LinkedTree_init 0) ''A'')) (Position 0 0) ''B''))
         (Position 0 0) ''B'') \<noteq>
   fst (add_nonroot_node (snd (add_root (LinkedTree_init 0) ''A'')) (Position 0 0) ''B'')"
  by code_simp

text \<open>
  C3, as the code has it. For a well-formed tree (every tree that the methods build is
  one, lemma \<open>built_invar\<close>), a valid position \<open>p\<close> and a label \<open>e\<close>, the
  first call of \<^verbatim>\<open>_add_nonroot_node(p, e)\<close> returns, and a second call with the same arguments
  returns \<^verbatim>\<open>None\<close> and leaves the tree exactly as the first call left it (size, nodes and
  children lists). When the first call created a node, it is the child that
  \<^verbatim>\<open>find_child_by_value(p, e)\<close> gives afterwards.
\<close>

theorem add_child_twice:
  assumes "invar t" "pos_ok t p" "validate t p = Inr n"
  shows "\<exists>r t1. add_nonroot_node t p e = (Inr r, t1) \<and>
           add_nonroot_node t1 p e = (Inr PNone, t1) \<and>
           (r = PNone \<or> find_child_by_value t1 p e = Inr r)"
proof -
  from validate_Inr [OF assms(3,2)]
  have p: "p = Position (tr_ident t) n" and n: "n < length (tr_nodes t)" by simp_all
  show ?thesis
  proof (cases "\<exists>c \<in> set (kids t n). nd_element (tr_nodes t ! c) = e")
    case True
    have first: "add_nonroot_node t p e = (Inr PNone, with_list t n)"
      unfolding p add_nonroot_node_ok [OF assms(1) n] using True by simp
    have n1: "n < length (tr_nodes (with_list t n))" using n by simp
    have "add_nonroot_node (with_list t n) (Position (tr_ident (with_list t n)) n) e =
        (Inr PNone, with_list (with_list t n) n)"
      unfolding add_nonroot_node_ok [OF invar_with_list [OF assms(1)] n1]
      using True by simp
    then have "add_nonroot_node (with_list t n) p e = (Inr PNone, with_list t n)"
      by (simp add: p with_list_same [OF with_list_children [OF n]])
    with first show ?thesis by simp
  next
    case False
    let ?t1 = "grow t n e"
    have first: "add_nonroot_node t p e = (Inr (Position (tr_ident t) (length (tr_nodes t))), ?t1)"
      unfolding p add_nonroot_node_ok [OF assms(1) n] using False by simp
    have n1: "n < length (tr_nodes ?t1)" using n by simp
    have kn: "kids ?t1 n = kids t n @ [length (tr_nodes t)]"
      using grow_nodes(3) [OF n less_imp_le [OF n], of e] by simp
    have en: "nd_element (tr_nodes ?t1 ! length (tr_nodes t)) = e"
      using grow_nodes(2) [OF n le_refl, of e] by simp
    have ex: "\<exists>c \<in> set (kids ?t1 n). nd_element (tr_nodes ?t1 ! c) = e"
      using en by (simp add: kn)
    have "add_nonroot_node ?t1 (Position (tr_ident ?t1) n) e = (Inr PNone, with_list ?t1 n)"
      unfolding add_nonroot_node_ok [OF invar_grow [OF assms(1) n] n1]
      using ex by simp
    then have second: "add_nonroot_node ?t1 p e = (Inr PNone, ?t1)"
      by (simp add: p with_list_same [OF grow_children [OF n]])
    have "find_child_by_value ?t1 p e = Inr (Position (tr_ident t) (length (tr_nodes t)))"
      unfolding p by (rule find_child_by_value_grow [OF assms(1) n False])
    with first second show ?thesis by simp
  qed
qed

theorem add_child_twice_witness:
  "invar (snd (add_root (LinkedTree_init 0) ''A'')) \<and>
   pos_ok (snd (add_root (LinkedTree_init 0) ''A'')) (Position 0 0) \<and>
   validate (snd (add_root (LinkedTree_init 0) ''A'')) (Position 0 0) = Inr 0 \<and>
   (\<exists>r t1. add_nonroot_node (snd (add_root (LinkedTree_init 0) ''A'')) (Position 0 0) ''B'' = (Inr r, t1) \<and>
      add_nonroot_node t1 (Position 0 0) ''B'' = (Inr PNone, t1) \<and>
      (r = PNone \<or> find_child_by_value t1 (Position 0 0) ''B'' = Inr r))"
proof -
  have i: "invar (snd (add_root (LinkedTree_init 0) ''A''))"
    by code_simp
  have p: "pos_ok (snd (add_root (LinkedTree_init 0) ''A'')) (Position 0 0)"
    by code_simp
  have v: "validate (snd (add_root (LinkedTree_init 0) ''A'')) (Position 0 0) = Inr 0"
    by code_simp
  show ?thesis
    by (rule conjI [OF i conjI [OF p conjI [OF v add_child_twice [OF i p v]]]])
qed

text \<open>
  C4. On the fresh (empty) tree, the body of the loop of \<^verbatim>\<open>fill_tree\<close> passes the whole line,
  stripped and not split, to \<^verbatim>\<open>add_node\<close>, which makes it the root: whatever commas the line
  holds, the tree is then the single node with the label \<^verbatim>\<open>line.strip()\<close>, and the cursor is
  untouched. The lines that follow are processed from that tree, and whether their
  processing ends or raises, the root stays the first node and keeps that label.
\<close>

theorem first_line_is_root:
  "fill_line (LinkedTree_init i) cursor line = (Inr cursor, single i (strip line)) \<and>
   fill_tree i (line # rest) = fill_lines (single i (strip line)) PNone rest \<and>
   root (single i (strip line)) = Position i 0 \<and>
   tr_nodes (single i (strip line)) =
     [\<lparr>nd_element = strip line, nd_parent = None, nd_children = None\<rparr>] \<and>
   tr_root (snd (fill_tree i (line # rest))) = Some 0 \<and>
   nd_element (tr_nodes (snd (fill_tree i (line # rest))) ! 0) = strip line"
proof -
  have a: "fill_tree i (line # rest) = fill_lines (single i (strip line)) PNone rest"
    by (simp add: fill_tree_def fill_line_fresh)
  have "rooted (strip line) (snd (fill_lines (single i (strip line)) PNone rest))"
    by (rule rooted_fill_lines [OF rooted_single])
  then have b: "tr_root (snd (fill_tree i (line # rest))) = Some 0"
    and c: "nd_element (tr_nodes (snd (fill_tree i (line # rest))) ! 0) = strip line"
    by (simp_all add: a rooted_def)
  have d: "root (single i (strip line)) = Position i 0"
    by (simp add: root_def make_position_def single_def)
  have e: "tr_nodes (single i (strip line)) =
     [\<lparr>nd_element = strip line, nd_parent = None, nd_children = None\<rparr>]"
    by (simp add: single_def)
  show ?thesis
    using fill_line_fresh [of i cursor line] a b c d e by simp
qed

text \<open>
  C5. For a well-formed, non-empty tree (the trees that the methods and \<^verbatim>\<open>fill_tree\<close> build
  are well-formed, lemmas \<open>built_invar\<close> and \<open>fill_tree_invar\<close>) both traversals end without an
  exception. The
  pre-order one yields the lines of \<open>pre_nodes t 0\<close> and the post-order one (any mode other than
  \<^verbatim>\<open>'pre'\<close>) those of \<open>post_nodes t 0\<close>; each of the two lists holds every node of the tree exactly
  once; they are depth-first, a node before (after) the subtrees of its children taken in the
  order of its list of children, to which \<^verbatim>\<open>_add_nonroot_node\<close> appends a new child last; and
  the line of a node is TAB repeated \<^verbatim>\<open>depth\<close> times, the element, a newline. For the root
  \<^verbatim>\<open>A\<close> with the children \<^verbatim>\<open>B\<close>, \<^verbatim>\<open>C\<close> added in that order the lines are \<^verbatim>\<open>A\<close>, \<^verbatim>\<open>\tB\<close>, \<^verbatim>\<open>\tC\<close> in
  pre-order and \<^verbatim>\<open>\tB\<close>, \<^verbatim>\<open>\tC\<close>, \<^verbatim>\<open>A\<close> in post-order.
\<close>

theorem traversals_spec:
  "(invar t \<and> tr_nodes t \<noteq> [] \<longrightarrow>
      all_nodes t ''pre'' = Some (map (line_of t) (pre_nodes t 0), None) \<and>
      (mode \<noteq> ''pre'' \<longrightarrow> all_nodes t mode = Some (map (line_of t) (post_nodes t 0), None)) \<and>
      mset (pre_nodes t 0) = mset [0..<tr_size t] \<and>
      mset (post_nodes t 0) = mset [0..<tr_size t] \<and>
      (\<forall>n<tr_size t.
         pre_nodes t n = n # concat (map (pre_nodes t) (kids t n)) \<and>
         post_nodes t n = concat (map (post_nodes t) (kids t n)) @ [n] \<and>
         depth t (Position (tr_ident t) n) = Some (Inr (level t n)) \<and>
         line_of t n = replicate (level t n) TAB @ nd_element (tr_nodes t ! n) @ [NL] \<and>
         ((\<forall>c \<in> set (kids t n). nd_element (tr_nodes t ! c) \<noteq> e) \<longrightarrow>
            kids (snd (add_nonroot_node t (Position (tr_ident t) n) e)) n =
              kids t n @ [length (tr_nodes t)]))) \<and>
   all_nodes abc ''pre'' =
     Some ([''A'' @ [NL], TAB # ''B'' @ [NL], TAB # ''C'' @ [NL]], None) \<and>
   all_nodes abc ''post'' =
     Some ([TAB # ''B'' @ [NL], TAB # ''C'' @ [NL], ''A'' @ [NL]], None)"
proof -
  have general: "all_nodes t ''pre'' = Some (map (line_of t) (pre_nodes t 0), None) \<and>
      (mode \<noteq> ''pre'' \<longrightarrow> all_nodes t mode = Some (map (line_of t) (post_nodes t 0), None)) \<and>
      mset (pre_nodes t 0) = mset [0..<tr_size t] \<and>
      mset (post_nodes t 0) = mset [0..<tr_size t] \<and>
      (\<forall>n<tr_size t.
         pre_nodes t n = n # concat (map (pre_nodes t) (kids t n)) \<and>
         post_nodes t n = concat (map (post_nodes t) (kids t n)) @ [n] \<and>
         depth t (Position (tr_ident t) n) = Some (Inr (level t n)) \<and>
         line_of t n = replicate (level t n) TAB @ nd_element (tr_nodes t ! n) @ [NL] \<and>
         ((\<forall>c \<in> set (kids t n). nd_element (tr_nodes t ! c) \<noteq> e) \<longrightarrow>
            kids (snd (add_nonroot_node t (Position (tr_ident t) n) e)) n =
              kids t n @ [length (tr_nodes t)]))"
    if i: "invar t" and ne: "tr_nodes t \<noteq> []"
  proof -
    have z: "0 < length (tr_nodes t)" using ne by simp
    have sz: "tr_size t = length (tr_nodes t)" using i by (simp add: invar_def)
    have r: "root t = Position (tr_ident t) 0" by (rule root_ok [OF i z])
    have a: "all_nodes t ''pre'' = Some (map (line_of t) (pre_nodes t 0), None)"
      by (simp add: all_nodes_def r traverse_preorder_ok [OF i z])
    have b: "mode \<noteq> ''pre'' \<longrightarrow> all_nodes t mode = Some (map (line_of t) (post_nodes t 0), None)"
      by (simp add: all_nodes_def r traverse_postorder_ok [OF i z])
    have c: "mset (pre_nodes t 0) = mset [0..<tr_size t]"
      by (rule pre_nodes_perm [OF i ne])
    have d: "mset (post_nodes t 0) = mset [0..<tr_size t]"
      using post_nodes_mset [OF i z] c by simp
    have f: "pre_nodes t n = n # concat (map (pre_nodes t) (kids t n)) \<and>
         post_nodes t n = concat (map (post_nodes t) (kids t n)) @ [n] \<and>
         depth t (Position (tr_ident t) n) = Some (Inr (level t n)) \<and>
         line_of t n = replicate (level t n) TAB @ nd_element (tr_nodes t ! n) @ [NL] \<and>
         ((\<forall>c \<in> set (kids t n). nd_element (tr_nodes t ! c) \<noteq> e) \<longrightarrow>
            kids (snd (add_nonroot_node t (Position (tr_ident t) n) e)) n =
              kids t n @ [length (tr_nodes t)])" if "n < tr_size t" for n
    proof -
      from that sz have n: "n < length (tr_nodes t)" by simp
      show ?thesis
        using pre_nodes_eq [OF i n] post_nodes_eq [OF i n] depth_ok [OF i n]
          kids_add_nonroot_node [OF i n, of e]
        by (simp add: line_of_def)
    qed
    from a b c d f show ?thesis by blast
  qed
  from general abc_traversals show ?thesis by blast
qed

theorem traversals_spec_witness:
  "invar abc \<and> tr_nodes abc \<noteq> [] \<and> ''post'' \<noteq> ''pre'' \<and> 0 < tr_size abc \<and>
   list_all (\<lambda>c. nd_element (tr_nodes abc ! c) \<noteq> ''D'') (kids abc 0) \<and>
   all_nodes abc ''pre'' = Some (map (line_of abc) (pre_nodes abc 0), None) \<and>
   all_nodes abc ''post'' = Some (map (line_of abc) (post_nodes abc 0), None) \<and>
   mset (pre_nodes abc 0) = mset [0..<tr_size abc] \<and>
   mset (post_nodes abc 0) = mset [0..<tr_size abc] \<and>
   pre_nodes abc 0 = 0 # concat (map (pre_nodes abc) (kids abc 0)) \<and>
   post_nodes abc 0 = concat (map (post_nodes abc) (kids abc 0)) @ [0] \<and>
   depth abc (Position (tr_ident abc) 0) = Some (Inr (level abc 0)) \<and>
   kids (snd (add_nonroot_node abc (Position (tr_ident abc) 0) ''D'')) 0 =
     kids abc 0 @ [length (tr_nodes abc)]"
proof -
  have h: "invar abc \<and> tr_nodes abc \<noteq> []"
    by code_simp
  have m: "''post'' \<noteq> ''pre''"
    by simp
  have z: "0 < tr_size abc"
    by code_simp
  have l: "list_all (\<lambda>c. nd_element (tr_nodes abc ! c) \<noteq> ''D'') (kids abc 0)"
    by code_simp
  then have k: "\<forall>c \<in> set (kids abc 0). nd_element (tr_nodes abc ! c) \<noteq> ''D''"
    by (simp add: list_all_iff)
  from mp [OF conjunct1 [OF traversals_spec [of abc "''post''" "''D''"]] h] m z k h l
  show ?thesis by blast
qed

text \<open>
  C6. For a well-formed tree (lemma \<open>built_invar\<close>) and a valid position \<open>p\<close> (the tree is
  then not empty),
  \<^verbatim>\<open>get_path_to_root(p)\<close> and \<^verbatim>\<open>depth(p)\<close> both return; the path has \<open>depth(p) + 1\<close>
  positions, starts with \<open>p\<close>, ends with the root, and each position but the last has the
  next one as its \<^verbatim>\<open>parent\<close>.
\<close>

theorem path_to_root_spec:
  assumes "invar t" "pos_ok t p" "validate t p = Inr n"
  shows "\<exists>path d. get_path_to_root t p = Some (Inr path) \<and> depth t p = Some (Inr d) \<and>
           length path = d + 1 \<and> hd path = p \<and> last path = root t \<and>
           (\<forall>k. Suc k < length path \<longrightarrow> parent t (path ! k) = Inr (path ! Suc k))"
proof -
  from validate_Inr [OF assms(3,2)]
  have p: "p = Position (tr_ident t) n" and n: "n < length (tr_nodes t)" by simp_all
  from path_and_depth [OF assms(1) n, of "[p]"]
  obtain ps d where ih: "path_loop t p [p] = Some (Inr ([p] @ ps))"
      "depth t p = Some (Inr d)" "length ps = d" "last (p # ps) = root t" "linked t (p # ps)"
    unfolding p by blast
  have "\<forall>k. Suc k < length (p # ps) \<longrightarrow> parent t ((p # ps) ! k) = Inr ((p # ps) ! Suc k)"
    using linked_nth [OF ih(5)] by blast
  with ih show ?thesis
    by (intro exI [of _ "p # ps"] exI [of _ d]) (simp add: get_path_to_root_def)
qed

theorem path_to_root_spec_witness:
  "invar (snd (fill_tree 0 [''A'', ''A,B'', ''A,B,C''])) \<and>
   pos_ok (snd (fill_tree 0 [''A'', ''A,B'', ''A,B,C''])) (Position 0 2) \<and>
   validate (snd (fill_tree 0 [''A'', ''A,B'', ''A,B,C''])) (Position 0 2) = Inr 2 \<and>
   (\<exists>path d. get_path_to_root (snd (fill_tree 0 [''A'', ''A,B'', ''A,B,C''])) (Position 0 2) =
        Some (Inr path) \<and>
      depth (snd (fill_tree 0 [''A'', ''A,B'', ''A,B,C''])) (Position 0 2) = Some (Inr d) \<and>
      length path = d + 1 \<and> hd path = Position 0 2 \<and>
      last path = root (snd (fill_tree 0 [''A'', ''A,B'', ''A,B,C''])) \<and>
      (\<forall>k. Suc k < length path \<longrightarrow>
         parent (snd (fill_tree 0 [''A'', ''A,B'', ''A,B,C''])) (path ! k) = Inr (path ! Suc k)))"
proof -
  have i: "invar (snd (fill_tree 0 [''A'', ''A,B'', ''A,B,C'']))"
    by code_simp
  have p: "pos_ok (snd (fill_tree 0 [''A'', ''A,B'', ''A,B,C''])) (Position 0 2)"
    by code_simp
  have v: "validate (snd (fill_tree 0 [''A'', ''A,B'', ''A,B,C''])) (Position 0 2) = Inr 2"
    by code_simp
  show ?thesis
    by (rule conjI [OF i conjI [OF p conjI [OF v path_to_root_spec [OF i p v]]]])
qed

text \<open>
  C7. An argument that is not a Position, a Position made by another tree, and a Position
  whose node has itself as parent all make \<^verbatim>\<open>parent\<close>, \<^verbatim>\<open>num_children\<close> and \<^verbatim>\<open>children\<close>
  raise an InvalidPosition error: none of them returns an answer (\<^verbatim>\<open>children\<close> is a
  generator, and raises when it is first asked for a child). In particular every position
  that a tree \<open>a\<close> makes is rejected by a tree \<open>t\<close> of another identity.
\<close>

theorem invalid_position_rejected:
  "(\<not> proper_type p \<or> foreign t p \<or> tombstoned t p \<longrightarrow>
      (\<exists>e. InvalidPosition e \<and> parent t p = Inl e \<and> num_children t p = Inl e \<and>
           children t p = Inl e)) \<and>
   (tr_ident a \<noteq> tr_ident t \<longrightarrow>
      (\<exists>e. InvalidPosition e \<and> parent t (make_position a (Some n)) = Inl e \<and>
           num_children t (make_position a (Some n)) = Inl e \<and>
           children t (make_position a (Some n)) = Inl e))"
proof -
  have rejected: "\<exists>e. InvalidPosition e \<and> parent t q = Inl e \<and> num_children t q = Inl e \<and>
      children t q = Inl e" if "\<not> proper_type q \<or> foreign t q \<or> tombstoned t q" for q
  proof -
    from validate_invalid [OF that] obtain e where "validate t q = Inl e" "InvalidPosition e"
      by blast
    then show ?thesis
      by (auto simp: parent_def num_children_def children_def)
  qed
  show ?thesis
    using rejected [of p] rejected [of "make_position a (Some n)"] foreign_make_position [of a t n]
    by blast
qed

theorem invalid_position_rejected_witness:
  "(\<not> proper_type PNone \<and>
      (\<exists>e. InvalidPosition e \<and> parent (LinkedTree_init 2) PNone = Inl e \<and>
         num_children (LinkedTree_init 2) PNone = Inl e \<and>
         children (LinkedTree_init 2) PNone = Inl e)) \<and>
   (foreign (LinkedTree_init 2) (Position 1 0) \<and>
      (\<exists>e. InvalidPosition e \<and> parent (LinkedTree_init 2) (Position 1 0) = Inl e \<and>
         num_children (LinkedTree_init 2) (Position 1 0) = Inl e \<and>
         children (LinkedTree_init 2) (Position 1 0) = Inl e)) \<and>
   (tombstoned
      \<lparr>tr_ident = 3, tr_root = Some 0, tr_size = 1,
        tr_nodes = [\<lparr>nd_element = ''X'', nd_parent = Some 0, nd_children = None\<rparr>]\<rparr>
      (Position 3 0) \<and>
      (\<exists>e. InvalidPosition e \<and>
         parent
           \<lparr>tr_ident = 3, tr_root = Some 0, tr_size = 1,
             tr_nodes = [\<lparr>nd_element = ''X'', nd_parent = Some 0, nd_children = None\<rparr>]\<rparr>
           (Position 3 0) = Inl e \<and>
         num_children
           \<lparr>tr_ident = 3, tr_root = Some 0, tr_size = 1,
             tr_nodes = [\<lparr>nd_element = ''X'', nd_parent = Some 0, nd_children = None\<rparr>]\<rparr>
           (Position 3 0) = Inl e \<and>
         children
           \<lparr>tr_ident = 3, tr_root = Some 0, tr_size = 1,
             tr_nodes = [\<lparr>nd_element = ''X'', nd_parent = Some 0, nd_children = None\<rparr>]\<rparr>
           (Position 3 0) = Inl e)) \<and>
   (tr_ident (snd (add_root (LinkedTree_init 1) ''A'')) \<noteq>
      tr_ident (snd (add_root (LinkedTree_init 2) ''X'')) \<and>
      (\<exists>e. InvalidPosition e \<and>
         parent (snd (add_root (LinkedTree_init 2) ''X''))
           (make_position (snd (add_root (LinkedTree_init 1) ''A'')) (Some 0)) = Inl e \<and>
         num_children (snd (add_root (LinkedTree_init 2) ''X''))
           (make_position (snd (add_root (LinkedTree_init 1) ''A'')) (Some 0)) = Inl e \<and>
         children (snd (add_root (LinkedTree_init 2) ''X''))
           (make_position (snd (add_root (LinkedTree_init 1) ''A'')) (Some 0)) = Inl e))"
proof -
  let ?Z = "\<lparr>tr_ident = 3, tr_root = Some 0, tr_size = 1,
        tr_nodes = [\<lparr>nd_element = ''X'', nd_parent = Some 0, nd_children = None\<rparr>]\<rparr>"
  have a1: "\<not> proper_type PNone" by simp
  then have h1: "\<not> proper_type PNone \<or> foreign (LinkedTree_init 2) PNone \<or>
      tombstoned (LinkedTree_init 2) PNone" by simp
  have a2: "foreign (LinkedTree_init 2) (Position 1 0)"
    by (simp add: LinkedTree_init_def)
  then have h2: "\<not> proper_type (Position 1 0) \<or> foreign (LinkedTree_init 2) (Position 1 0) \<or>
      tombstoned (LinkedTree_init 2) (Position 1 0)" by simp
  have a3: "tombstoned ?Z (Position 3 0)" by simp
  then have h3: "\<not> proper_type (Position 3 0) \<or> foreign ?Z (Position 3 0) \<or>
      tombstoned ?Z (Position 3 0)" by simp
  have a4: "tr_ident (snd (add_root (LinkedTree_init 1) ''A'')) \<noteq>
      tr_ident (snd (add_root (LinkedTree_init 2) ''X''))"
    by (simp add: add_root_def LinkedTree_init_def Let_def)
  note r1 = mp [OF conjunct1 [OF invalid_position_rejected] h1]
  note r2 = mp [OF conjunct1 [OF invalid_position_rejected] h2]
  note r3 = mp [OF conjunct1 [OF invalid_position_rejected] h3]
  note r4 = mp [OF conjunct2 [OF invalid_position_rejected] a4]
  show ?thesis
    by (intro conjI a1 a2 a3 a4 r1 r2 r3 r4)
qed

text \<open>
  C8. When \<^verbatim>\<open>_root\<close> is not \<^verbatim>\<open>None\<close>, \<^verbatim>\<open>_add_root\<close> raises ValueError('Root exists') (the
  specification's AlreadyHasRoot) and leaves the tree as it was. When \<^verbatim>\<open>_root\<close> is \<^verbatim>\<open>None\<close> it
  allocates a node that holds \<open>x\<close>, with no parent and no children, makes it the root,
  sets the size to 1 and returns the position of the root.
\<close>

theorem add_root_spec:
  "(tr_root t \<noteq> None \<longrightarrow>
      (\<exists>e. AlreadyHasRoot e \<and> add_root t x = (Inl e, t))) \<and>
   (tr_root t = None \<longrightarrow>
      (\<exists>t' a. add_root t x = (Inr (root t'), t') \<and> tr_root t' = Some a \<and>
         root t' = Position (tr_ident t) a \<and>
         tr_nodes t' ! a = \<lparr>nd_element = x, nd_parent = None, nd_children = None\<rparr> \<and>
         tr_size t' = 1 \<and> len t' = 1 \<and> is_root t' (root t')))"
  by (auto simp: add_root_def AlreadyHasRoot_def Let_def root_def make_position_def len_def
      is_root_def)

theorem add_root_spec_witness:
  "tr_root (snd (add_root (LinkedTree_init 0) ''A'')) \<noteq> None \<and>
   (\<exists>e. AlreadyHasRoot e \<and>
      add_root (snd (add_root (LinkedTree_init 0) ''A'')) ''B'' =
        (Inl e, snd (add_root (LinkedTree_init 0) ''A''))) \<and>
   tr_root (LinkedTree_init 0) = None \<and>
   (\<exists>t' a. add_root (LinkedTree_init 0) ''A'' = (Inr (root t'), t') \<and> tr_root t' = Some a \<and>
      root t' = Position (tr_ident (LinkedTree_init 0)) a \<and>
      tr_nodes t' ! a = \<lparr>nd_element = ''A'', nd_parent = None, nd_children = None\<rparr> \<and>
      tr_size t' = 1 \<and> len t' = 1 \<and> is_root t' (root t'))"
proof -
  have h0: "tr_root (LinkedTree_init 0) = None"
    by (simp add: LinkedTree_init_def)
  have h1: "tr_root (snd (add_root (LinkedTree_init 0) ''A'')) \<noteq> None"
    by (simp add: add_root_def LinkedTree_init_def Let_def)
  note r1 = mp [OF conjunct1 [OF add_root_spec] h1, of "''B''"]
  note r0 = mp [OF conjunct2 [OF add_root_spec] h0, of "''A''"]
  show ?thesis
    by (rule conjI [OF h1 conjI [OF r1 conjI [OF h0 r0]]])
qed

text \<open>
  C9. \<^verbatim>\<open>_size\<close> is 0 exactly when \<^verbatim>\<open>_root\<close> is \<^verbatim>\<open>None\<close> in a fresh tree and in every tree
  reached from one by calls of \<^verbatim>\<open>_add_root\<close>, \<^verbatim>\<open>_add_nonroot_node\<close> and \<^verbatim>\<open>add_node\<close>, returning
  or raising (the queries assign no field); equivalently \<^verbatim>\<open>is_empty()\<close> holds exactly when
  \<^verbatim>\<open>root()\<close> is \<^verbatim>\<open>None\<close>.
\<close>

theorem size_zero_iff_no_root:
  "built t \<Longrightarrow>
     (tr_size t = 0 \<longleftrightarrow> tr_root t = None) \<and> (is_empty t \<longleftrightarrow> root t = PNone)"
proof -
  assume "built t"
  then have "(tr_size t = 0) = (tr_root t = None)"
    by (rule invar_size_root [OF built_invar])
  then show ?thesis
    by (simp add: is_empty_def len_def root_def make_position_def split: option.splits)
qed

theorem size_zero_iff_no_root_witness:
  "built (snd (add_nonroot_node (snd (add_root (LinkedTree_init 0) ''A'')) (Position 0 0) ''B'')) \<and>
   ((tr_size (snd (add_nonroot_node (snd (add_root (LinkedTree_init 0) ''A'')) (Position 0 0) ''B'')) = 0
      \<longleftrightarrow> tr_root (snd (add_nonroot_node (snd (add_root (LinkedTree_init 0) ''A'')) (Position 0 0) ''B'')) = None) \<and>
    (is_empty (snd (add_nonroot_node (snd (add_root (LinkedTree_init 0) ''A'')) (Position 0 0) ''B''))
      \<longleftrightarrow> root (snd (add_nonroot_node (snd (add_root (LinkedTree_init 0) ''A'')) (Position 0 0) ''B'')) = PNone))"
proof -
  have ok: "pos_ok (snd (add_root (LinkedTree_init 0) ''A'')) (Position 0 0)"
    by (simp add: add_root_def LinkedTree_init_def Let_def)
  have b: "built (snd (add_nonroot_node (snd (add_root (LinkedTree_init 0) ''A'')) (Position 0 0) ''B''))"
    by (rule built.by_add_nonroot_node [OF built.by_add_root [OF built.fresh] ok])
  show ?thesis
    by (rule conjI [OF b size_zero_iff_no_root [OF b]])
qed

text \<open>
  C10. Whenever the first label of the second line, stripped, differs from the stripped first
  line, \<^verbatim>\<open>fill_tree\<close> reaches \<^verbatim>\<open>find_child_by_value(parent, ...)\<close> with \<^verbatim>\<open>parent\<close> still \<^verbatim>\<open>None\<close>:
  the lookup raises the TypeError of \<^verbatim>\<open>_validate\<close> and \<^verbatim>\<open>fill_tree\<close> ends there, the tree
  holding the root only. The two lines \<^verbatim>\<open>A\<close> and \<^verbatim>\<open>B\<close> are such an input.
\<close>

theorem unassigned_cursor_fails:
  assumes "strip (hd (split l2)) \<noteq> strip l1"
  shows "fst (fill_tree i [l1]) = Inr PNone \<and>
         find_child_by_value (snd (fill_tree i [l1])) PNone (strip (hd (split l2))) =
           Inl (TypeError ''p must be proper Position type'') \<and>
         fill_tree i (l1 # l2 # rest) =
           (Inl (TypeError ''p must be proper Position type''), single i (strip l1))"
proof -
  obtain x xs where sp: "split l2 = x # xs"
    using split_nonempty [of l2] by (cases "split l2") simp_all
  with assms have ne: "strip l1 \<noteq> strip x" by auto
  have one: "fill_tree i [l1] = (Inr PNone, single i (strip l1))"
    by (simp add: fill_tree_def fill_line_fresh)
  have v: "validate (single i (strip l1)) (root (single i (strip l1))) = Inr 0"
    by (simp add: root_def make_position_def single_def)
  have el: "nd_element (tr_nodes (single i (strip l1)) ! 0) = strip l1"
    by (simp add: single_def)
  have lab: "fill_label (single i (strip l1)) PNone x =
      (Inl (TypeError ''p must be proper Position type''), single i (strip l1))"
    using ne by (simp add: fill_label_def v el find_child_by_value_None)
  have emp: "\<not> is_empty (single i (strip l1))"
    by (simp add: is_empty_def len_def single_def)
  have line: "fill_line (single i (strip l1)) PNone l2 =
      (Inl (TypeError ''p must be proper Position type''), single i (strip l1))"
    by (simp add: fill_line_def emp sp lab)
  have "fill_tree i (l1 # l2 # rest) =
      (Inl (TypeError ''p must be proper Position type''), single i (strip l1))"
    by (simp add: fill_tree_def fill_line_fresh line)
  then show ?thesis
    by (simp add: one find_child_by_value_None)
qed

theorem unassigned_cursor_fails_witness:
  "strip (hd (split (''B'' @ [NL]))) \<noteq> strip (''A'' @ [NL]) \<and>
   fst (fill_tree 0 [''A'' @ [NL]]) = Inr PNone \<and>
   find_child_by_value (snd (fill_tree 0 [''A'' @ [NL]])) PNone (strip (hd (split (''B'' @ [NL])))) =
     Inl (TypeError ''p must be proper Position type'') \<and>
   fill_tree 0 [''A'' @ [NL], ''B'' @ [NL]] =
     (Inl (TypeError ''p must be proper Position type''), single 0 (strip (''A'' @ [NL])))"
proof -
  have h: "strip (hd (split (''B'' @ [NL]))) \<noteq> strip (''A'' @ [NL])"
    by code_simp
  show ?thesis
    by (rule conjI [OF h unassigned_cursor_fails [OF h]])
qed

end
